theory Spec2Isabelle
  imports Complex_Main "HOL-Library.Log_Nat"
begin

section \<open>Event and alert arbitration (selfdrive/controls/lib/events.py)\<close>

text \<open>
  A shallow embedding of the classes \<open>Priority\<close>, \<open>ET\<close>, \<open>Events\<close> and \<open>Alert\<close>.
  Python integers are \<open>int\<close>. Python floats (durations, the control period
  \<open>DT_CTRL\<close>, \<open>creation_delay\<close>) are the rationals that finite doubles denote,
  and the product of the gate is rounded as a double. Exceptions are values of the
  type \<open>error\<close>. Alert objects live in an explicit store, because
  \<open>create_alerts\<close> writes to the objects the registry holds.
\<close>

subsection \<open>Data model\<close>

text \<open>\<open>class Priority(IntEnum)\<close>, with the integer each member stands for.\<close>

datatype Priority = LOWEST | LOWER | LOW | MID | HIGH | HIGHEST

fun Priority_value :: "Priority \<Rightarrow> int" where
  "Priority_value LOWEST = 0"
| "Priority_value LOWER = 1"
| "Priority_value LOW = 2"
| "Priority_value MID = 3"
| "Priority_value HIGH = 4"
| "Priority_value HIGHEST = 5"

text \<open>\<open>class ET\<close>: the eight event types and the string each constant holds.\<close>

datatype ET = ENABLE | PRE_ENABLE | NO_ENTRY | WARNING | USER_DISABLE | SOFT_DISABLE
  | IMMEDIATE_DISABLE | PERMANENT

fun ET_str :: "ET \<Rightarrow> string" where
  "ET_str ENABLE = ''enable''"
| "ET_str PRE_ENABLE = ''preEnable''"
| "ET_str NO_ENTRY = ''noEntry''"
| "ET_str WARNING = ''warning''"
| "ET_str USER_DISABLE = ''userDisable''"
| "ET_str SOFT_DISABLE = ''softDisable''"
| "ET_str IMMEDIATE_DISABLE = ''immediateDisable''"
| "ET_str PERMANENT = ''permanent''"

definition ET_all :: "ET list" where
  "ET_all = [ENABLE, PRE_ENABLE, NO_ENTRY, WARNING, USER_DISABLE, SOFT_DISABLE,
     IMMEDIATE_DISABLE, PERMANENT]"

text \<open>
  An event name is the raw value of the enumeration \<open>car.CarEvent.EventName\<close>.
  The enumerations of the message schema (\<open>AlertStatus\<close>, \<open>AlertSize\<close>,
  \<open>VisualAlert\<close>, \<open>AudibleAlert\<close>) are declared outside this file; a member is
  identified by its name.
\<close>

type_synonym event_name = nat
type_synonym AlertStatus = string
type_synonym AlertSize = string
type_synonym VisualAlert = string
type_synonym AudibleAlert = string

datatype error = KeyError | TypeError | CallbackError

text \<open>\<open>class Alert\<close>: the attributes \<open>__init__\<close> assigns.\<close>

record Alert =
  alert_text_1 :: string
  alert_text_2 :: string
  alert_status :: AlertStatus
  alert_size :: AlertSize
  alert_priority :: Priority
  visual_alert :: VisualAlert
  audible_alert :: AudibleAlert
  duration_sound :: rat
  duration_hud_alert :: rat
  duration_text :: rat
  alert_rate :: rat
  creation_delay :: rat
  start_time :: rat
  alert_type :: string
  event_type :: "ET option"

definition Alert_init :: "string \<Rightarrow> string \<Rightarrow> AlertStatus \<Rightarrow> AlertSize \<Rightarrow> Priority \<Rightarrow>
    VisualAlert \<Rightarrow> AudibleAlert \<Rightarrow> rat \<Rightarrow> rat \<Rightarrow> rat \<Rightarrow> rat \<Rightarrow> rat \<Rightarrow> Alert" where
  "Alert_init text_1 text_2 status size' priority visual audible d_sound d_hud d_text
      rate delay =
     \<lparr> alert_text_1 = text_1, alert_text_2 = text_2, alert_status = status,
       alert_size = size', alert_priority = priority, visual_alert = visual,
       audible_alert = audible, duration_sound = d_sound, duration_hud_alert = d_hud,
       duration_text = d_text, alert_rate = rate, creation_delay = delay,
       start_time = 0, alert_type = [], event_type = None \<rparr>"

text \<open>\<open>Alert.__gt__\<close>: the comparison of the two priorities as integers.\<close>

definition Alert_gt :: "Alert \<Rightarrow> Alert \<Rightarrow> bool" where
  "Alert_gt self alert2 \<longleftrightarrow>
     Priority_value (alert_priority self) > Priority_value (alert_priority alert2)"

text \<open>
  The store of Alert objects: an object's address is its index, and a new
  object is put at the end. A registry entry is either an Alert object (its
  address) or a callback, called with the list \<open>callback_args\<close>; a callback builds
  a new Alert or raises.
\<close>

type_synonym ref = nat
type_synonym heap = "Alert list"

datatype 'arg alert_spec = Static ref | Callback "'arg list \<Rightarrow> error + Alert"

text \<open>
  The module-level dictionaries \<open>EVENTS\<close> and \<open>EVENT_NAME\<close> and the constant
  \<open>DT_CTRL\<close> are parameters of the functions that read them.
\<close>

type_synonym 'arg registry = "event_name \<rightharpoonup> (ET \<rightharpoonup> 'arg alert_spec)"

text \<open>\<open>class Events\<close>.\<close>

record Events =
  events :: "event_name list"
  static_events :: "event_name list"
  events_prev :: "event_name \<rightharpoonup> int"

text \<open>A \<open>car.CarEvent\<close> message: the name and one boolean per event type.\<close>

record CarEvent =
  name :: event_name
  flag :: "ET \<Rightarrow> bool"

definition new_message :: "CarEvent" where
  "new_message = \<lparr> name = 0, flag = (\<lambda>_. False) \<rparr>"

definition setattr :: "CarEvent \<Rightarrow> ET \<Rightarrow> bool \<Rightarrow> CarEvent" where
  "setattr event t b = event\<lparr> flag := (flag event)(t := b) \<rparr>"

subsection \<open>Floats\<close>

text \<open>
  A Python float is an IEEE 754 double. A finite double is the rational number
  it denotes, and \<open>round_double\<close> is the rounding of a rational to the nearest
  double, ties to the even significand: 53 significant bits from the exponent
  of the number on, and multiples of \<open>2 ^ -1074\<close> below \<open>2 ^ -1022\<close>. The
  infinities, NaN and numbers beyond the largest double are not modelled.
\<close>

definition round_half_even :: "rat \<Rightarrow> int" where
  "round_half_even x =
     (let f = \<lfloor>x\<rfloor>; d = x - of_int f
      in if d < 1/2 then f else if 1/2 < d then f + 1 else if even f then f else f + 1)"

text \<open>The exponent \<open>e\<close> of a positive rational: \<open>2 ^ e <= x < 2 ^ (e + 1)\<close>.\<close>

definition floor_log2 :: "rat \<Rightarrow> int" where
  "floor_log2 x =
     (let (p, q) = quotient_of x; k = bitlen p - bitlen q
      in if 2 powi k \<le> x then k else k - 1)"

definition round_double :: "rat \<Rightarrow> rat" where
  "round_double x =
     (if x = 0 then 0
      else let e = max (floor_log2 \<bar>x\<bar>) (- 1022); ulp = 2 powi (e - 52)
           in sgn x * of_int (round_half_even (\<bar>x\<bar> / ulp)) * ulp)"

text \<open>
  The product \<open>x * n\<close> of a float and an int: Python converts the int to a
  float and rounds the product of the two floats.
\<close>

definition double_mul :: "rat \<Rightarrow> int \<Rightarrow> rat" where
  "double_mul x n = round_double (x * round_double (of_int n))"

subsection \<open>Operations of \<open>Events\<close>\<close>

text \<open>\<open>__init__\<close>: \<open>dict.fromkeys(EVENTS.keys(), 0)\<close> has the registry's keys.\<close>

definition init :: "'arg registry \<Rightarrow> Events" where
  "init EVENTS = \<lparr> events = [], static_events = [],
     events_prev = (\<lambda>k. case EVENTS k of None \<Rightarrow> None | Some _ \<Rightarrow> Some 0) \<rparr>"

definition names :: "Events \<Rightarrow> event_name list" where
  "names self = events self"

definition len :: "Events \<Rightarrow> int" where
  "len self = int (length (events self))"

definition add :: "Events \<Rightarrow> event_name \<Rightarrow> bool \<Rightarrow> Events" where
  "add self event_name static =
     (let self = (if static then self\<lparr> static_events := static_events self @ [event_name] \<rparr>
                  else self)
      in self\<lparr> events := events self @ [event_name] \<rparr>)"

definition clear :: "Events \<Rightarrow> Events" where
  "clear self =
     (let self = self\<lparr> events_prev := (\<lambda>k. case events_prev self k of None \<Rightarrow> None
                    | Some v \<Rightarrow> Some (if k \<in> set (events self) then v + 1 else 0)) \<rparr>
      in self\<lparr> events := static_events self \<rparr>)"

text \<open>\<open>EVENTS.get(e, {})\<close> and the keys of an inner dictionary.\<close>

definition get_or_empty :: "'arg registry \<Rightarrow> event_name \<Rightarrow> (ET \<rightharpoonup> 'arg alert_spec)" where
  "get_or_empty EVENTS e = (case EVENTS e of None \<Rightarrow> Map.empty | Some d \<Rightarrow> d)"

definition keys :: "(ET \<rightharpoonup> 'v) \<Rightarrow> ET list" where
  "keys d = filter (\<lambda>t. d t \<noteq> None) ET_all"

fun any_loop :: "'arg registry \<Rightarrow> event_name list \<Rightarrow> ET \<Rightarrow> bool" where
  "any_loop EVENTS [] etype = False"
| "any_loop EVENTS (e # es) etype =
     (if etype \<in> set (keys (get_or_empty EVENTS e)) then True
      else any_loop EVENTS es etype)"

definition any :: "'arg registry \<Rightarrow> Events \<Rightarrow> ET \<Rightarrow> bool" where
  "any EVENTS self etype = any_loop EVENTS (events self) etype"

text \<open>\<open>add_from_msg\<close> appends the raw name of each message, in order.\<close>

fun add_from_msg :: "Events \<Rightarrow> CarEvent list \<Rightarrow> Events" where
  "add_from_msg self [] = self"
| "add_from_msg self (e # es) = add_from_msg (self\<lparr> events := events self @ [name e] \<rparr>) es"

text \<open>\<open>to_msg\<close>: one message per entry of \<open>events\<close>.\<close>

fun set_flags :: "CarEvent \<Rightarrow> ET list \<Rightarrow> CarEvent" where
  "set_flags event [] = event"
| "set_flags event (t # ts) = set_flags (setattr event t True) ts"

fun to_msg_loop :: "'arg registry \<Rightarrow> event_name list \<Rightarrow> CarEvent list \<Rightarrow> CarEvent list" where
  "to_msg_loop EVENTS [] ret = ret"
| "to_msg_loop EVENTS (event_name # rest) ret =
     (let event = new_message\<lparr> name := event_name \<rparr>;
          event = set_flags event (keys (get_or_empty EVENTS event_name))
      in to_msg_loop EVENTS rest (ret @ [event]))"

definition to_msg :: "'arg registry \<Rightarrow> Events \<Rightarrow> CarEvent list" where
  "to_msg EVENTS self = to_msg_loop EVENTS (events self) []"

subsection \<open>\<open>create_alerts\<close>\<close>

text \<open>
  The number of cycles the gate of \<open>create_alerts\<close> counts:
  \<open>self.events_prev[e] + 1\<close>, a KeyError when \<open>e\<close> has no counter.
\<close>

definition elapsed_cycles :: "Events \<Rightarrow> event_name \<Rightarrow> error + int" where
  "elapsed_cycles self e =
     (case events_prev self e of None \<Rightarrow> Inl KeyError | Some v \<Rightarrow> Inr (v + 1))"

text \<open>
  \<open>alert = EVENTS[e][et]\<close>, and the call \<open>alert(*callback_args)\<close> when the entry
  is not an Alert: the new object is put in the store.
\<close>

definition resolve :: "'arg alert_spec \<Rightarrow> 'arg list \<Rightarrow> heap \<Rightarrow> heap \<times> (error + ref)" where
  "resolve alert callback_args h =
     (case alert of
        Static r \<Rightarrow> (h, Inr r)
      | Callback f \<Rightarrow>
          (case f callback_args of
             Inl err \<Rightarrow> (h, Inl err)
           | Inr a \<Rightarrow> (h @ [a], Inr (length h))))"

text \<open>The body of the inner loop, for an \<open>et\<close> that is among the types of \<open>e\<close>.\<close>

definition alert_step :: "(event_name \<rightharpoonup> string) \<Rightarrow> rat \<Rightarrow> Events \<Rightarrow> 'arg list \<Rightarrow>
    event_name \<Rightarrow> ET \<Rightarrow> 'arg alert_spec \<Rightarrow> heap \<Rightarrow> ref list \<Rightarrow> heap \<times> (error + ref list)" where
  "alert_step EVENT_NAME DT_CTRL self callback_args e et alert h ret =
     (case resolve alert callback_args h of
        (h, Inl err) \<Rightarrow> (h, Inl err)
      | (h, Inr r) \<Rightarrow>
          (case elapsed_cycles self e of
             Inl err \<Rightarrow> (h, Inl err)
           | Inr n \<Rightarrow>
               if double_mul DT_CTRL n \<ge> creation_delay (h ! r) then
                 (case EVENT_NAME e of
                    None \<Rightarrow> (h, Inl KeyError)
                  | Some nm \<Rightarrow>
                      let h = h[r := (h ! r)\<lparr> alert_type := nm @ ''/'' @ ET_str et \<rparr>];
                          h = h[r := (h ! r)\<lparr> event_type := Some et \<rparr>]
                      in (h, Inr (ret @ [r])))
               else (h, Inr ret)))"

fun types_loop :: "(event_name \<rightharpoonup> string) \<Rightarrow> rat \<Rightarrow> Events \<Rightarrow> 'arg list \<Rightarrow>
    event_name \<Rightarrow> (ET \<rightharpoonup> 'arg alert_spec) \<Rightarrow> ET list \<Rightarrow> heap \<Rightarrow> ref list \<Rightarrow>
    heap \<times> (error + ref list)" where
  "types_loop EVENT_NAME DT_CTRL self callback_args e types [] h ret = (h, Inr ret)"
| "types_loop EVENT_NAME DT_CTRL self callback_args e types (et # ets) h ret =
     (case types et of
        None \<Rightarrow> types_loop EVENT_NAME DT_CTRL self callback_args e types ets h ret
      | Some alert \<Rightarrow>
          (case alert_step EVENT_NAME DT_CTRL self callback_args e et alert h ret of
             (h, Inl err) \<Rightarrow> (h, Inl err)
           | (h, Inr ret) \<Rightarrow>
               types_loop EVENT_NAME DT_CTRL self callback_args e types ets h ret))"

text \<open>The outer loop: \<open>EVENTS[e]\<close> is a KeyError when \<open>e\<close> is not a key.\<close>

fun events_loop :: "'arg registry \<Rightarrow> (event_name \<rightharpoonup> string) \<Rightarrow> rat \<Rightarrow> Events \<Rightarrow>
    'arg list \<Rightarrow> ET list \<Rightarrow> event_name list \<Rightarrow> heap \<Rightarrow> ref list \<Rightarrow>
    heap \<times> (error + ref list)" where
  "events_loop EVENTS EVENT_NAME DT_CTRL self callback_args event_types [] h ret =
     (h, Inr ret)"
| "events_loop EVENTS EVENT_NAME DT_CTRL self callback_args event_types (e # es) h ret =
     (case EVENTS e of
        None \<Rightarrow> (h, Inl KeyError)
      | Some types \<Rightarrow>
          (case types_loop EVENT_NAME DT_CTRL self callback_args e types event_types h ret of
             (h, Inl err) \<Rightarrow> (h, Inl err)
           | (h, Inr ret) \<Rightarrow>
               events_loop EVENTS EVENT_NAME DT_CTRL self callback_args event_types es h ret))"

text \<open>
  \<open>create_alerts\<close> returns the store as the call leaves it, and the list
  \<open>ret\<close> of the objects it collected or the exception it raised.
\<close>

definition create_alerts :: "'arg registry \<Rightarrow> (event_name \<rightharpoonup> string) \<Rightarrow> rat \<Rightarrow> Events \<Rightarrow>
    ET list \<Rightarrow> 'arg list option \<Rightarrow> heap \<Rightarrow> heap \<times> (error + ref list)" where
  "create_alerts EVENTS EVENT_NAME DT_CTRL self event_types callback_args h =
     (let callback_args = (case callback_args of None \<Rightarrow> [] | Some args \<Rightarrow> args)
      in events_loop EVENTS EVENT_NAME DT_CTRL self callback_args event_types
           (events self) h [])"

subsection \<open>Sequences of calls\<close>

text \<open>
  A call of a method of \<open>Events\<close>. The queries \<open>any\<close>, \<open>create_alerts\<close> and
  \<open>to_msg\<close> assign no attribute of \<open>self\<close>.
\<close>

datatype call = Add event_name bool | Clear | Add_from_msg "CarEvent list"
  | Any ET | Create_alerts "ET list" | To_msg

fun do_call :: "Events \<Rightarrow> call \<Rightarrow> Events" where
  "do_call self (Add event_name static) = add self event_name static"
| "do_call self Clear = clear self"
| "do_call self (Add_from_msg msgs) = add_from_msg self msgs"
| "do_call self (Any etype) = self"
| "do_call self (Create_alerts event_types) = self"
| "do_call self To_msg = self"

definition run :: "Events \<Rightarrow> call list \<Rightarrow> Events" where
  "run self calls = foldl do_call self calls"

text \<open>One control cycle that raises the events \<open>adds\<close> and ends with \<open>clear\<close>.\<close>

definition cycle :: "(event_name \<times> bool) list \<Rightarrow> call list" where
  "cycle adds = map (\<lambda>(e, static). Add e static) adds @ [Clear]"

subsection \<open>What the specification says \<open>create_alerts\<close> returns\<close>

text \<open>The registry entry for an event and a type, if there is one.\<close>

definition entry :: "'arg registry \<Rightarrow> event_name \<Rightarrow> ET \<Rightarrow> 'arg alert_spec option" where
  "entry EVENTS e et = (case EVENTS e of None \<Rightarrow> None | Some d \<Rightarrow> d et)"

text \<open>The tag \<open><name>/<type>\<close> and the event type, written on an alert.\<close>

definition stamp :: "string \<Rightarrow> ET \<Rightarrow> Alert \<Rightarrow> Alert" where
  "stamp nm et a = a\<lparr> alert_type := nm @ ''/'' @ ET_str et, event_type := Some et \<rparr>"

text \<open>
  The alert a specification resolves to: the registry's alert as the store
  holds it before the call, or what the factory returns.
\<close>

definition resolved :: "'arg alert_spec \<Rightarrow> 'arg list \<Rightarrow> heap \<Rightarrow> Alert option" where
  "resolved spec callback_args h =
     (case spec of
        Static r \<Rightarrow> Some (h ! r)
      | Callback f \<Rightarrow> (case f callback_args of Inl _ \<Rightarrow> None | Inr a \<Rightarrow> Some a))"

text \<open>
  Section 4.3 of the specification, for one event and one requested type: no
  alert without a registry entry, and otherwise the resolved alert, stamped,
  when the period times the elapsed cycles reaches its creation delay.
\<close>

definition expected_alert :: "'arg registry \<Rightarrow> (event_name \<rightharpoonup> string) \<Rightarrow> rat \<Rightarrow> Events \<Rightarrow>
    'arg list \<Rightarrow> heap \<Rightarrow> event_name \<Rightarrow> ET \<Rightarrow> Alert list" where
  "expected_alert EVENTS EVENT_NAME DT_CTRL self callback_args h e et =
     (case entry EVENTS e et of
        None \<Rightarrow> []
      | Some spec \<Rightarrow>
          (case (resolved spec callback_args h, events_prev self e, EVENT_NAME e) of
             (Some a, Some v, Some nm) \<Rightarrow>
               if double_mul DT_CTRL (v + 1) \<ge> creation_delay a then [stamp nm et a] else []
           | _ \<Rightarrow> []))"

text \<open>The result: grouped by the active events in order, then by the requested types.\<close>

definition expected_alerts :: "'arg registry \<Rightarrow> (event_name \<rightharpoonup> string) \<Rightarrow> rat \<Rightarrow> Events \<Rightarrow>
    ET list \<Rightarrow> 'arg list \<Rightarrow> heap \<Rightarrow> Alert list" where
  "expected_alerts EVENTS EVENT_NAME DT_CTRL self event_types callback_args h =
     concat (map (\<lambda>e. concat (map (\<lambda>et.
       expected_alert EVENTS EVENT_NAME DT_CTRL self callback_args h e et) event_types))
       (events self))"

text \<open>
  The registry as the source writes it: every entry that is an Alert is an
  object of the store, and no Alert object stands in two entries (each entry of
  the dictionary literal constructs its own). Stated for the entries a call
  reads: the events \<open>es\<close> and the types \<open>ets\<close>.
\<close>

definition static_refs_ok :: "'arg registry \<Rightarrow> event_name list \<Rightarrow> ET list \<Rightarrow> heap \<Rightarrow> bool" where
  "static_refs_ok EVENTS es ets h \<longleftrightarrow>
     (\<forall>e \<in> set es. \<forall>et \<in> set ets.
        case entry EVENTS e et of
          Some (Static r) \<Rightarrow>
            r < length h \<and>
            (\<forall>e' \<in> set es. \<forall>et' \<in> set ets.
               entry EVENTS e' et' = Some (Static r) \<longrightarrow> e' = e \<and> et' = et)
        | _ \<Rightarrow> True)"

text \<open>
  The conditions under which no statement of \<open>create_alerts\<close> raises: every
  active event is a key of the registry, of the counters and of the name table,
  and every factory the call reaches returns an alert.
\<close>

definition no_raise :: "'arg registry \<Rightarrow> (event_name \<rightharpoonup> string) \<Rightarrow> Events \<Rightarrow> ET list \<Rightarrow>
    'arg list \<Rightarrow> bool" where
  "no_raise EVENTS EVENT_NAME self event_types callback_args \<longleftrightarrow>
     (\<forall>e \<in> set (events self).
        EVENTS e \<noteq> None \<and> events_prev self e \<noteq> None \<and> EVENT_NAME e \<noteq> None \<and>
        (\<forall>et \<in> set event_types.
           case entry EVENTS e et of
             Some (Callback f) \<Rightarrow> (case f callback_args of Inl _ \<Rightarrow> False | Inr _ \<Rightarrow> True)
           | _ \<Rightarrow> True))"

text \<open>
  The state of the store during a call, against the store \<open>h0\<close> the call began
  with: an object of \<open>h0\<close> is as it was or is the stamped alert of its entry,
  and an object of \<open>h0\<close> already collected is the stamped alert of its entry.
\<close>

definition is_stamped :: "'arg registry \<Rightarrow> (event_name \<rightharpoonup> string) \<Rightarrow> event_name list \<Rightarrow>
    ET list \<Rightarrow> heap \<Rightarrow> heap \<Rightarrow> ref \<Rightarrow> bool" where
  "is_stamped EVENTS EVENT_NAME es ets h0 h r \<longleftrightarrow>
     (\<exists>e \<in> set es. \<exists>et \<in> set ets. \<exists>nm.
        entry EVENTS e et = Some (Static r) \<and> EVENT_NAME e = Some nm \<and>
        h ! r = stamp nm et (h0 ! r))"

definition store_inv :: "'arg registry \<Rightarrow> (event_name \<rightharpoonup> string) \<Rightarrow> event_name list \<Rightarrow>
    ET list \<Rightarrow> heap \<Rightarrow> heap \<Rightarrow> ref list \<Rightarrow> bool" where
  "store_inv EVENTS EVENT_NAME es ets h0 h ret \<longleftrightarrow>
     length h0 \<le> length h \<and>
     (\<forall>r < length h0. h ! r = h0 ! r \<or> is_stamped EVENTS EVENT_NAME es ets h0 h r) \<and>
     (\<forall>r \<in> set ret. r < length h \<and>
        (r < length h0 \<longrightarrow> is_stamped EVENTS EVENT_NAME es ets h0 h r))"

text \<open>Two alerts that differ at most in the two fields \<open>create_alerts\<close> writes.\<close>

definition same_but_stamp :: "Alert \<Rightarrow> Alert \<Rightarrow> bool" where
  "same_but_stamp a b \<longleftrightarrow>
     b\<lparr> alert_type := alert_type a, event_type := event_type a \<rparr> = a"

subsection \<open>A small registry\<close>

text \<open>
  Two events in the shape of the source's entries: the first holds the
  \<open>debugAlert\<close> Alert of the source under \<open>ET.PERMANENT\<close> and an Alert with a
  creation delay of one second under \<open>ET.WARNING\<close>; the second holds a factory
  under \<open>ET.PERMANENT\<close> whose alert has a creation delay of 300 seconds, as
  \<open>no_gps_alert\<close> has, and which takes three arguments.
\<close>

definition sample_heap :: heap where
  "sample_heap =
     [Alert_init ''DEBUG ALERT'' '''' ''userPrompt'' ''mid'' LOW ''none'' ''none''
        (round_double (1/10)) (round_double (1/10)) (round_double (1/10)) 0 0,
      Alert_init ''Sensor data invalid'' '''' ''normal'' ''mid'' LOWER ''none'' ''none''
        0 0 (round_double (1/5)) 0 1]"

definition sample_callback :: "nat list \<Rightarrow> error + Alert" where
  "sample_callback args =
     (if length args = 3
      then Inr (Alert_init ''No GPS'' '''' ''normal'' ''mid'' LOWER ''none'' ''none''
                  0 0 (round_double (1/5)) 0 300)
      else Inl TypeError)"

definition sample_EVENTS :: "nat registry" where
  "sample_EVENTS =
     [1 \<mapsto> [PERMANENT \<mapsto> Static 0, WARNING \<mapsto> Static 1],
      2 \<mapsto> [PERMANENT \<mapsto> Callback sample_callback]]"

definition sample_EVENT_NAME :: "event_name \<rightharpoonup> string" where
  "sample_EVENT_NAME = [1 \<mapsto> ''debugAlert'', 2 \<mapsto> ''noGps'', 3 \<mapsto> ''other'']"

text \<open>
  The control period: the double that the literal \<open>0.01\<close> denotes.
\<close>

definition sample_DT_CTRL :: rat where
  "sample_DT_CTRL = round_double (1/100)"

text \<open>
  A registry with one Alert whose creation delay is the double
  \<open>0.35000000000000003\<close>, and a state in the thirty-fifth cycle of its event.
\<close>

definition sample_delay_heap :: heap where
  "sample_delay_heap =
     [Alert_init ''Sensor data invalid'' '''' ''normal'' ''mid'' LOWER ''none'' ''none''
        0 0 (round_double (1/5)) 0 (6305039478318695 / 18014398509481984)]"

definition sample_delay_EVENTS :: "nat registry" where
  "sample_delay_EVENTS = [1 \<mapsto> [WARNING \<mapsto> Static 0]]"

definition sample_delay_self :: Events where
  "sample_delay_self = \<lparr> events = [1], static_events = [], events_prev = [1 \<mapsto> 34] \<rparr>"

text \<open>
  A state in the hundredth cycle of the first event and the sixth of the second,
  with the first event raised twice.
\<close>

definition sample_self :: Events where
  "sample_self = \<lparr> events = [1, 2, 1], static_events = [],
     events_prev = [1 \<mapsto> 99, 2 \<mapsto> 5] \<rparr>"

text \<open>
  What a call may do to the store: it may grow, and an object it held before
  differs at most in the two stamped fields.
\<close>

definition frame :: "heap \<Rightarrow> heap \<Rightarrow> bool" where
  "frame h h' \<longleftrightarrow> length h \<le> length h' \<and> (\<forall>r < length h. same_but_stamp (h ! r) (h' ! r))"

text \<open>An object that is not among the collected ones is as it was.\<close>

definition untouched :: "heap \<Rightarrow> ref list \<Rightarrow> heap \<Rightarrow> ref list \<Rightarrow> bool" where
  "untouched h ret h' ret' \<longleftrightarrow> length h \<le> length h' \<and> set ret \<subseteq> set ret' \<and>
     (\<forall>r < length h. r \<notin> set ret' \<longrightarrow> h' ! r = h ! r)"

section \<open>Properties\<close>

subsection \<open>The lists and the counters\<close>

lemma set_keys: "set (keys d) = dom d"
proof -
  have "t \<in> set ET_all" for t by (cases t) (simp_all add: ET_all_def)
  then show ?thesis by (auto simp: keys_def)
qed

lemma events_add: "events (add self e st) = events self @ [e]"
  by (simp add: add_def)
lemma static_events_add: "static_events (add self e st) = static_events self @ (if st then [e] else [])"
  by (simp add: add_def)
lemma events_prev_add: "events_prev (add self e st) = events_prev self"
  by (simp add: add_def)
lemma events_clear: "events (clear self) = static_events self"
  by (simp add: clear_def)
lemma static_events_clear: "static_events (clear self) = static_events self"
  by (simp add: clear_def)
lemma events_prev_clear: "events_prev (clear self) k =
   (case events_prev self k of None \<Rightarrow> None | Some v \<Rightarrow> Some (if k \<in> set (events self) then v + 1 else 0))"
  by (simp add: clear_def)
lemma events_add_from_msg: "events (add_from_msg self msgs) = events self @ map name msgs"
  by (induction self msgs rule: add_from_msg.induct) simp_all
lemma static_events_add_from_msg: "static_events (add_from_msg self msgs) = static_events self"
  by (induction self msgs rule: add_from_msg.induct) simp_all
lemma events_prev_add_from_msg: "events_prev (add_from_msg self msgs) = events_prev self"
  by (induction self msgs rule: add_from_msg.induct) simp_all

lemma dom_events_prev_do_call: "dom (events_prev (do_call self c)) = dom (events_prev self)"
  by (cases c) (auto simp: events_prev_add events_prev_clear events_prev_add_from_msg split: option.splits)

lemma run_Nil: "run self [] = self" by (simp add: run_def)
lemma run_Cons: "run self (c # cs) = run (do_call self c) cs" by (simp add: run_def)
lemma run_append: "run self (cs @ ds) = run (run self cs) ds" by (simp add: run_def)
lemma run_snoc: "run self (cs @ [c]) = do_call (run self cs) c" by (simp add: run_def)

lemma dom_events_prev_run: "dom (events_prev (run self cs)) = dom (events_prev self)"
  by (induction cs arbitrary: self) (simp_all add: run_Nil run_Cons dom_events_prev_do_call)

lemma dom_events_prev_init: "dom (events_prev (init EVENTS)) = dom EVENTS"
  by (auto simp: init_def split: option.splits)

lemma events_prev_run_adds:
  "events_prev (run self (map (\<lambda>(e, static). Add e static) adds)) = events_prev self"
  by (induction adds arbitrary: self) (auto simp: run_Nil run_Cons events_prev_add)

lemma events_run_adds:
  "events (run self (map (\<lambda>(e, static). Add e static) adds)) = events self @ map fst adds"
  by (induction adds arbitrary: self) (auto simp: run_Nil run_Cons events_add)

lemma static_events_run_adds:
  "static_events (run self (map (\<lambda>(e, static). Add e static) adds))
     = static_events self @ map fst (filter snd adds)"
  by (induction adds arbitrary: self) (auto simp: run_Nil run_Cons static_events_add)

lemma events_prev_cycle:
  "events_prev (run self (cycle adds)) k =
     (case events_prev self k of None \<Rightarrow> None
      | Some v \<Rightarrow> Some (if k \<in> set (events self) \<union> fst ` set adds then v + 1 else 0))"
  by (simp add: cycle_def run_append run_Cons run_Nil events_prev_clear events_prev_run_adds
      events_run_adds split: option.splits)

lemma events_prev_cycles:
  "events_prev self e = Some c \<Longrightarrow> \<forall>adds \<in> set cycles. e \<in> fst ` set adds \<Longrightarrow>
   events_prev (run self (concat (map cycle cycles))) e = Some (c + int (length cycles))"
proof (induction cycles arbitrary: self c)
  case Nil
  then show ?case by (simp add: run_Nil)
next
  case (Cons adds cycles)
  have "events_prev (run self (cycle adds)) e = Some (c + 1)"
    using Cons.prems by (simp add: events_prev_cycle)
  from Cons.IH [OF this] Cons.prems(2) show ?case
    by (simp add: run_append)
qed

lemma any_loop_iff:
  "any_loop EVENTS es t \<longleftrightarrow> (\<exists>e \<in> set es. \<exists>d. EVENTS e = Some d \<and> d t \<noteq> None)"
proof (induction es)
  case Nil
  show ?case by simp
next
  case (Cons a es)
  have "t \<in> set (keys (get_or_empty EVENTS a)) \<longleftrightarrow> (\<exists>d. EVENTS a = Some d \<and> d t \<noteq> None)"
    by (auto simp: set_keys get_or_empty_def split: option.splits)
  then show ?case using Cons by (cases "EVENTS a") auto
qed

lemma static_events_do_call:
  "set (static_events self) \<subseteq> set (static_events (do_call self c))"
  by (cases c) (auto simp: static_events_add static_events_clear static_events_add_from_msg)

lemma static_events_run:
  "set (static_events self) \<subseteq> set (static_events (run self calls))"
proof (induction calls arbitrary: self)
  case Nil
  show ?case by (simp add: run_Nil)
next
  case (Cons c calls)
  show ?case using static_events_do_call [of self c] Cons [of "do_call self c"]
    by (auto simp: run_Cons)
qed

lemma set_flags_eq:
  "set_flags event ts = event\<lparr> flag := (\<lambda>t. flag event t \<or> t \<in> set ts) \<rparr>"
  by (induction event ts rule: set_flags.induct) (auto simp: setattr_def fun_eq_iff)

lemma to_msg_loop_eq:
  "to_msg_loop EVENTS es ret =
     ret @ map (\<lambda>e. \<lparr> name = e,
        flag = (\<lambda>t. case EVENTS e of None \<Rightarrow> False | Some d \<Rightarrow> d t \<noteq> None) \<rparr>) es"
proof (induction es arbitrary: ret)
  case Nil
  show ?case by simp
next
  case (Cons e es)
  have "set_flags (new_message\<lparr> name := e \<rparr>) (keys (get_or_empty EVENTS e))
      = \<lparr> name = e, flag = (\<lambda>t. case EVENTS e of None \<Rightarrow> False | Some d \<Rightarrow> d t \<noteq> None) \<rparr>"
    by (auto simp: set_flags_eq new_message_def set_keys get_or_empty_def fun_eq_iff
        split: option.splits)
  then show ?case by (simp add: Cons)
qed

subsection \<open>The store during \<open>create_alerts\<close>\<close>

lemma stamp_stamp: "stamp nm et (stamp nm' et' a) = stamp nm et a"
  by (simp add: stamp_def)

lemma creation_delay_stamp: "creation_delay (stamp nm et a) = creation_delay a"
  by (simp add: stamp_def)

lemma double_update:
  "h[r := ((h[r := (h ! r)\<lparr> alert_type := x \<rparr>]) ! r)\<lparr> event_type := y \<rparr>]
     = h[r := (h ! r)\<lparr> alert_type := x, event_type := y \<rparr>]"
proof (cases "r < length h")
  case True
  then show ?thesis by simp
next
  case False
  then have "length h \<le> r" by simp
  then show ?thesis by (simp add: list_update_beyond)
qed

lemma alert_step_Static:
  "alert_step EVENT_NAME DT_CTRL self cb e et (Static r) h ret =
     (case events_prev self e of
        None \<Rightarrow> (h, Inl KeyError)
      | Some v \<Rightarrow>
          if double_mul DT_CTRL (v + 1) \<ge> creation_delay (h ! r) then
            (case EVENT_NAME e of
               None \<Rightarrow> (h, Inl KeyError)
             | Some nm \<Rightarrow> (h[r := stamp nm et (h ! r)], Inr (ret @ [r])))
          else (h, Inr ret))"
  by (simp add: alert_step_def resolve_def elapsed_cycles_def Let_def double_update stamp_def
      split: option.splits)

lemma alert_step_Callback:
  "alert_step EVENT_NAME DT_CTRL self cb e et (Callback f) h ret =
     (case f cb of
        Inl err \<Rightarrow> (h, Inl err)
      | Inr a \<Rightarrow>
         (case events_prev self e of
            None \<Rightarrow> (h @ [a], Inl KeyError)
          | Some v \<Rightarrow>
              if double_mul DT_CTRL (v + 1) \<ge> creation_delay a then
                (case EVENT_NAME e of
                   None \<Rightarrow> (h @ [a], Inl KeyError)
                 | Some nm \<Rightarrow> (h @ [stamp nm et a], Inr (ret @ [length h])))
              else (h @ [a], Inr ret)))"
  by (simp add: alert_step_def resolve_def elapsed_cycles_def Let_def stamp_def
      split: option.splits sum.splits)

lemma is_stamped_same:
  "h' ! r = h ! r \<Longrightarrow> is_stamped EVENTS EVENT_NAME es ets h0 h r \<Longrightarrow>
   is_stamped EVENTS EVENT_NAME es ets h0 h' r"
  by (auto simp: is_stamped_def)

lemma static_refs_okD:
  assumes "static_refs_ok EVENTS es ets h0" "e \<in> set es" "et \<in> set ets"
    "entry EVENTS e et = Some (Static r)"
  shows "r < length h0"
    and "\<And>e' et'. e' \<in> set es \<Longrightarrow> et' \<in> set ets \<Longrightarrow> entry EVENTS e' et' = Some (Static r)
          \<Longrightarrow> e' = e \<and> et' = et"
proof -
  from assms(1-3) have "case entry EVENTS e et of
          Some (Static r) \<Rightarrow>
            r < length h0 \<and>
            (\<forall>e' \<in> set es. \<forall>et' \<in> set ets.
               entry EVENTS e' et' = Some (Static r) \<longrightarrow> e' = e \<and> et' = et)
        | _ \<Rightarrow> True"
    unfolding static_refs_ok_def by blast
  with assms(4) have *: "r < length h0 \<and>
            (\<forall>e' \<in> set es. \<forall>et' \<in> set ets.
               entry EVENTS e' et' = Some (Static r) \<longrightarrow> e' = e \<and> et' = et)"
    by simp
  from * show "r < length h0" by simp
  from * show "\<And>e' et'. e' \<in> set es \<Longrightarrow> et' \<in> set ets \<Longrightarrow> entry EVENTS e' et' = Some (Static r)
          \<Longrightarrow> e' = e \<and> et' = et" by blast
qed

lemma is_stamped_unique:
  assumes "static_refs_ok EVENTS es ets h0" "e \<in> set es" "et \<in> set ets"
    "entry EVENTS e et = Some (Static r)" "is_stamped EVENTS EVENT_NAME es ets h0 h r"
  shows "\<exists>nm. EVENT_NAME e = Some nm \<and> h ! r = stamp nm et (h0 ! r)"
proof -
  from assms(5) obtain e' et' nm where s: "e' \<in> set es" "et' \<in> set ets"
    "entry EVENTS e' et' = Some (Static r)" "EVENT_NAME e' = Some nm"
    "h ! r = stamp nm et' (h0 ! r)"
    unfolding is_stamped_def by blast
  from static_refs_okD(2) [OF assms(1-4) s(1-3)] s show ?thesis by simp
qed

lemma alert_step_inv_Static:
  assumes e: "e \<in> set es" and et: "et \<in> set ets"
    and ent: "entry EVENTS e et = Some (Static r)"
    and ok: "static_refs_ok EVENTS es ets h0"
    and inv: "store_inv EVENTS EVENT_NAME es ets h0 h ret"
    and step: "alert_step EVENT_NAME DT_CTRL self cb e et (Static r) h ret = (h', Inr ret')"
  shows "store_inv EVENTS EVENT_NAME es ets h0 h' ret' \<and> (\<forall>r \<in> set ret. h' ! r = h ! r) \<and>
     (\<exists>new. ret' = ret @ new \<and>
        map ((!) h') new = expected_alert EVENTS EVENT_NAME DT_CTRL self cb h0 e et)"
proof -
  note r0 = static_refs_okD(1) [OF ok e et ent]
  from inv have len: "length h0 \<le> length h"
    and old: "\<And>q. q < length h0 \<Longrightarrow> h ! q = h0 ! q \<or> is_stamped EVENTS EVENT_NAME es ets h0 h q"
    and col: "\<And>q. q \<in> set ret \<Longrightarrow> q < length h \<and>
        (q < length h0 \<longrightarrow> is_stamped EVENTS EVENT_NAME es ets h0 h q)"
    unfolding store_inv_def by blast+
  from r0 len have rh: "r < length h" by simp
  from step obtain v where v: "events_prev self e = Some v"
    by (auto simp: alert_step_Static split: option.splits)
  have K: "h ! r = h0 ! r \<or> (\<exists>nm. EVENT_NAME e = Some nm \<and> h ! r = stamp nm et (h0 ! r))"
    using old [OF r0] is_stamped_unique [OF ok e et ent] by blast
  then have cd: "creation_delay (h ! r) = creation_delay (h0 ! r)"
    by (auto simp: creation_delay_stamp)
  show ?thesis
  proof (cases "double_mul DT_CTRL (v + 1) \<ge> creation_delay (h0 ! r)")
    case False
    with step v cd have "h' = h" "ret' = ret"
      by (auto simp: alert_step_Static)
    with inv False v ent show ?thesis
      by (simp add: expected_alert_def resolved_def split: option.splits)
  next
    case True
    with step v cd obtain nm where nm: "EVENT_NAME e = Some nm"
      and h': "h' = h[r := stamp nm et (h ! r)]" and ret': "ret' = ret @ [r]"
      by (auto simp: alert_step_Static split: option.splits)
    from K nm have st: "stamp nm et (h ! r) = stamp nm et (h0 ! r)"
      by (auto simp: stamp_stamp)
    have h'r: "h' ! r = stamp nm et (h0 ! r)"
      using h' st rh by simp
    have other: "h' ! q = h ! q" if "q \<noteq> r" for q
      using h' that by simp
    have sr: "is_stamped EVENTS EVENT_NAME es ets h0 h' r"
      unfolding is_stamped_def using e et ent nm h'r by blast
    have keep: "h' ! q = h ! q" if "q \<in> set ret" for q
    proof (cases "q = r")
      case False
      then show ?thesis by (rule other)
    next
      case True
      with col [OF that] r0 have "is_stamped EVENTS EVENT_NAME es ets h0 h r" by simp
      from is_stamped_unique [OF ok e et ent this] nm h'r True show ?thesis by simp
    qed
    have i1: "length h0 \<le> length h'" using len h' by simp
    have i2: "h' ! q = h0 ! q \<or> is_stamped EVENTS EVENT_NAME es ets h0 h' q"
      if "q < length h0" for q
    proof (cases "q = r")
      case True
      with sr show ?thesis by simp
    next
      case False
      from other [OF False] have "is_stamped EVENTS EVENT_NAME es ets h0 h q \<Longrightarrow>
          is_stamped EVENTS EVENT_NAME es ets h0 h' q"
        by (rule is_stamped_same)
      with old [OF that] other [OF False] show ?thesis by auto
    qed
    have i3: "q < length h' \<and> (q < length h0 \<longrightarrow> is_stamped EVENTS EVENT_NAME es ets h0 h' q)"
      if "q \<in> set ret'" for q
    proof (cases "q = r")
      case True
      with sr rh h' show ?thesis by simp
    next
      case False
      with that ret' have "q \<in> set ret" by simp
      from other [OF False] have "is_stamped EVENTS EVENT_NAME es ets h0 h q \<Longrightarrow>
          is_stamped EVENTS EVENT_NAME es ets h0 h' q"
        by (rule is_stamped_same)
      with col [OF \<open>q \<in> set ret\<close>] h' show ?thesis by auto
    qed
    have inv': "store_inv EVENTS EVENT_NAME es ets h0 h' ret'"
      unfolding store_inv_def using i1 i2 i3 by blast
    have ex: "expected_alert EVENTS EVENT_NAME DT_CTRL self cb h0 e et = [stamp nm et (h0 ! r)]"
      using ent v nm True by (simp add: expected_alert_def resolved_def)
    show ?thesis using inv' keep ret' h'r ex by simp
  qed
qed

lemma alert_step_inv_Callback:
  assumes e: "e \<in> set es" and et: "et \<in> set ets"
    and ent: "entry EVENTS e et = Some (Callback f)"
    and inv: "store_inv EVENTS EVENT_NAME es ets h0 h ret"
    and step: "alert_step EVENT_NAME DT_CTRL self cb e et (Callback f) h ret = (h', Inr ret')"
  shows "store_inv EVENTS EVENT_NAME es ets h0 h' ret' \<and> (\<forall>r \<in> set ret. h' ! r = h ! r) \<and>
     (\<exists>new. ret' = ret @ new \<and>
        map ((!) h') new = expected_alert EVENTS EVENT_NAME DT_CTRL self cb h0 e et)"
proof -
  from inv have len: "length h0 \<le> length h"
    and old: "\<And>q. q < length h0 \<Longrightarrow> h ! q = h0 ! q \<or> is_stamped EVENTS EVENT_NAME es ets h0 h q"
    and col: "\<And>q. q \<in> set ret \<Longrightarrow> q < length h \<and>
        (q < length h0 \<longrightarrow> is_stamped EVENTS EVENT_NAME es ets h0 h q)"
    unfolding store_inv_def by blast+
  from step obtain a v where a: "f cb = Inr a" and v: "events_prev self e = Some v"
    by (auto simp: alert_step_Callback split: option.splits sum.splits)
  from step a v obtain b where h': "h' = h @ [b]" and lenr: "set ret' \<subseteq> set ret \<union> {length h}"
    by (auto simp: alert_step_Callback split: option.splits if_splits)
  have below: "h' ! q = h ! q" if "q < length h" for q
    using h' that by (simp add: nth_append)
  have i1: "length h0 \<le> length h'" using len h' by simp
  have i2: "h' ! q = h0 ! q \<or> is_stamped EVENTS EVENT_NAME es ets h0 h' q"
    if "q < length h0" for q
  proof -
    from that len have "q < length h" by simp
    from below [OF this] have "is_stamped EVENTS EVENT_NAME es ets h0 h q \<Longrightarrow>
          is_stamped EVENTS EVENT_NAME es ets h0 h' q"
      by (rule is_stamped_same)
    with below [OF \<open>q < length h\<close>] old [OF that] show ?thesis by auto
  qed
  have i3: "q < length h' \<and> (q < length h0 \<longrightarrow> is_stamped EVENTS EVENT_NAME es ets h0 h' q)"
    if "q \<in> set ret'" for q
  proof (cases "q = length h")
    case True
    with len h' show ?thesis by simp
  next
    case False
    with that lenr have q: "q \<in> set ret" by auto
    with col have "q < length h" by simp
    from below [OF this] have "is_stamped EVENTS EVENT_NAME es ets h0 h q \<Longrightarrow>
          is_stamped EVENTS EVENT_NAME es ets h0 h' q"
      by (rule is_stamped_same)
    with col [OF q] h' show ?thesis by auto
  qed
  have inv': "store_inv EVENTS EVENT_NAME es ets h0 h' ret'"
    unfolding store_inv_def using i1 i2 i3 by blast
  have keep: "\<forall>q \<in> set ret. h' ! q = h ! q"
    using col below by blast
  have new: "\<exists>new. ret' = ret @ new \<and>
        map ((!) h') new = expected_alert EVENTS EVENT_NAME DT_CTRL self cb h0 e et"
    using step a v ent
    by (auto simp: alert_step_Callback expected_alert_def resolved_def nth_append
        split: option.splits if_splits)
  show ?thesis using inv' keep new by blast
qed

lemma alert_step_inv:
  assumes e: "e \<in> set es" and et: "et \<in> set ets"
    and ent: "entry EVENTS e et = Some spec"
    and ok: "static_refs_ok EVENTS es ets h0"
    and inv: "store_inv EVENTS EVENT_NAME es ets h0 h ret"
    and step: "alert_step EVENT_NAME DT_CTRL self cb e et spec h ret = (h', Inr ret')"
  shows "store_inv EVENTS EVENT_NAME es ets h0 h' ret' \<and> (\<forall>r \<in> set ret. h' ! r = h ! r) \<and>
     (\<exists>new. ret' = ret @ new \<and>
        map ((!) h') new = expected_alert EVENTS EVENT_NAME DT_CTRL self cb h0 e et)"
proof (cases spec)
  case (Static r)
  with alert_step_inv_Static [OF e et _ ok inv] ent step show ?thesis by blast
next
  case (Callback f)
  with alert_step_inv_Callback [OF e et _ inv] ent step show ?thesis by blast
qed

lemma entry_Some: "EVENTS e = Some d \<Longrightarrow> entry EVENTS e et = d et"
  by (simp add: entry_def)

lemma types_loop_inv:
  assumes e: "e \<in> set es" and d: "EVENTS e = Some d"
    and ok: "static_refs_ok EVENTS es ets h0"
  shows "set ts \<subseteq> set ets \<Longrightarrow> store_inv EVENTS EVENT_NAME es ets h0 h ret \<Longrightarrow>
     types_loop EVENT_NAME DT_CTRL self cb e d ts h ret = (h', Inr ret') \<Longrightarrow>
     store_inv EVENTS EVENT_NAME es ets h0 h' ret' \<and> (\<forall>r \<in> set ret. h' ! r = h ! r) \<and>
     (\<exists>new. ret' = ret @ new \<and>
        map ((!) h') new =
          concat (map (expected_alert EVENTS EVENT_NAME DT_CTRL self cb h0 e) ts))"
proof (induction ts arbitrary: h ret)
  case Nil
  then show ?case by simp
next
  case (Cons et ts)
  from Cons.prems(1) have et: "et \<in> set ets" and ts: "set ts \<subseteq> set ets" by simp_all
  show ?case
  proof (cases "d et")
    case None
    then have x: "expected_alert EVENTS EVENT_NAME DT_CTRL self cb h0 e et = []"
      using d by (simp add: expected_alert_def entry_def)
    from Cons.prems(3) None
    have "types_loop EVENT_NAME DT_CTRL self cb e d ts h ret = (h', Inr ret')" by simp
    from Cons.IH [OF ts Cons.prems(2) this] x show ?thesis by simp
  next
    case (Some spec)
    obtain h1 res where st: "alert_step EVENT_NAME DT_CTRL self cb e et spec h ret = (h1, res)"
      by (cases "alert_step EVENT_NAME DT_CTRL self cb e et spec h ret")
    with Cons.prems(3) Some obtain ret1 where res: "res = Inr ret1"
      and rest: "types_loop EVENT_NAME DT_CTRL self cb e d ts h1 ret1 = (h', Inr ret')"
      by (cases res) simp_all
    have ent: "entry EVENTS e et = Some spec" using d Some by (simp add: entry_def)
    from alert_step_inv [OF e et ent ok Cons.prems(2) st [unfolded res]]
    obtain new1 where s1: "store_inv EVENTS EVENT_NAME es ets h0 h1 ret1"
      and k1: "\<forall>r \<in> set ret. h1 ! r = h ! r"
      and r1: "ret1 = ret @ new1"
      and m1: "map ((!) h1) new1 = expected_alert EVENTS EVENT_NAME DT_CTRL self cb h0 e et"
      by blast
    from Cons.IH [OF ts s1 rest]
    obtain new2 where s2: "store_inv EVENTS EVENT_NAME es ets h0 h' ret'"
      and k2: "\<forall>r \<in> set ret1. h' ! r = h1 ! r"
      and r2: "ret' = ret1 @ new2"
      and m2: "map ((!) h') new2 =
          concat (map (expected_alert EVENTS EVENT_NAME DT_CTRL self cb h0 e) ts)"
      by blast
    have keep: "\<forall>r \<in> set ret. h' ! r = h ! r" using k1 k2 r1 by simp
    have "map ((!) h') new1 = map ((!) h1) new1" using k2 r1 by simp
    with m1 m2 have "map ((!) h') (new1 @ new2) =
        concat (map (expected_alert EVENTS EVENT_NAME DT_CTRL self cb h0 e) (et # ts))"
      by simp
    moreover have "ret' = ret @ (new1 @ new2)" using r1 r2 by simp
    ultimately show ?thesis using s2 keep by blast
  qed
qed

lemma events_loop_inv:
  assumes ok: "static_refs_ok EVENTS es ets h0"
  shows "set xs \<subseteq> set es \<Longrightarrow> store_inv EVENTS EVENT_NAME es ets h0 h ret \<Longrightarrow>
     events_loop EVENTS EVENT_NAME DT_CTRL self cb ets xs h ret = (h', Inr ret') \<Longrightarrow>
     store_inv EVENTS EVENT_NAME es ets h0 h' ret' \<and> (\<forall>r \<in> set ret. h' ! r = h ! r) \<and>
     (\<exists>new. ret' = ret @ new \<and>
        map ((!) h') new =
          concat (map (\<lambda>e. concat (map
            (expected_alert EVENTS EVENT_NAME DT_CTRL self cb h0 e) ets)) xs))"
proof (induction xs arbitrary: h ret)
  case Nil
  then show ?case by simp
next
  case (Cons e xs)
  from Cons.prems(1) have e: "e \<in> set es" and xs: "set xs \<subseteq> set es" by simp_all
  from Cons.prems(3) obtain d where d: "EVENTS e = Some d"
    by (cases "EVENTS e") simp_all
  obtain h1 res where st: "types_loop EVENT_NAME DT_CTRL self cb e d ets h ret = (h1, res)"
    by (cases "types_loop EVENT_NAME DT_CTRL self cb e d ets h ret")
  with Cons.prems(3) d obtain ret1 where res: "res = Inr ret1"
    and rest: "events_loop EVENTS EVENT_NAME DT_CTRL self cb ets xs h1 ret1 = (h', Inr ret')"
    by (cases res) simp_all
  from types_loop_inv [OF e d ok subset_refl Cons.prems(2) st [unfolded res]]
  obtain new1 where s1: "store_inv EVENTS EVENT_NAME es ets h0 h1 ret1"
    and k1: "\<forall>r \<in> set ret. h1 ! r = h ! r"
    and r1: "ret1 = ret @ new1"
    and m1: "map ((!) h1) new1 =
        concat (map (expected_alert EVENTS EVENT_NAME DT_CTRL self cb h0 e) ets)"
    by blast
  from Cons.IH [OF xs s1 rest]
  obtain new2 where s2: "store_inv EVENTS EVENT_NAME es ets h0 h' ret'"
    and k2: "\<forall>r \<in> set ret1. h' ! r = h1 ! r"
    and r2: "ret' = ret1 @ new2"
    and m2: "map ((!) h') new2 =
        concat (map (\<lambda>e. concat (map
            (expected_alert EVENTS EVENT_NAME DT_CTRL self cb h0 e) ets)) xs)"
    by blast
  have keep: "\<forall>r \<in> set ret. h' ! r = h ! r" using k1 k2 r1 by simp
  have "map ((!) h') new1 = map ((!) h1) new1" using k2 r1 by simp
  with m1 m2 have "map ((!) h') (new1 @ new2) =
      concat (map (\<lambda>e. concat (map
            (expected_alert EVENTS EVENT_NAME DT_CTRL self cb h0 e) ets)) (e # xs))"
    by simp
  moreover have "ret' = ret @ (new1 @ new2)" using r1 r2 by simp
  ultimately show ?case using s2 keep by blast
qed

lemma store_inv_start: "store_inv EVENTS EVENT_NAME es ets h h []"
  by (simp add: store_inv_def)

lemma create_alerts_expected:
  assumes "static_refs_ok EVENTS (events self) event_types h"
    and "create_alerts EVENTS EVENT_NAME DT_CTRL self event_types callback_args h = (h', Inr ret)"
  shows "map ((!) h') ret =
     expected_alerts EVENTS EVENT_NAME DT_CTRL self event_types
       (case callback_args of None \<Rightarrow> [] | Some args \<Rightarrow> args) h"
  using events_loop_inv [OF assms(1) subset_refl store_inv_start, of EVENT_NAME DT_CTRL self
      "case callback_args of None \<Rightarrow> [] | Some args \<Rightarrow> args" h' ret] assms(2)
  by (simp add: create_alerts_def expected_alerts_def)

lemma same_but_stamp_refl: "same_but_stamp a a"
  by (simp add: same_but_stamp_def)

lemma same_but_stamp_trans: "same_but_stamp a b \<Longrightarrow> same_but_stamp b c \<Longrightarrow> same_but_stamp a c"
proof -
  assume ab: "same_but_stamp a b" and bc: "same_but_stamp b c"
  have "c\<lparr> alert_type := alert_type a, event_type := event_type a \<rparr> =
      (c\<lparr> alert_type := alert_type b, event_type := event_type b \<rparr>)
        \<lparr> alert_type := alert_type a, event_type := event_type a \<rparr>"
    by simp
  also have "\<dots> = b\<lparr> alert_type := alert_type a, event_type := event_type a \<rparr>"
    using bc unfolding same_but_stamp_def by simp
  also have "\<dots> = a"
    using ab unfolding same_but_stamp_def by simp
  finally show ?thesis unfolding same_but_stamp_def .
qed

lemma same_but_stamp_stamp: "same_but_stamp a (stamp nm et a)"
  by (simp add: same_but_stamp_def stamp_def)

lemma frame_refl: "frame h h"
  by (simp add: frame_def same_but_stamp_refl)

lemma frame_trans: "frame h h1 \<Longrightarrow> frame h1 h2 \<Longrightarrow> frame h h2"
proof -
  assume a: "frame h h1" and b: "frame h1 h2"
  have "same_but_stamp (h ! r) (h2 ! r)" if "r < length h" for r
  proof -
    from that a have "same_but_stamp (h ! r) (h1 ! r)" "r < length h1"
      unfolding frame_def by auto
    moreover from this b have "same_but_stamp (h1 ! r) (h2 ! r)"
      unfolding frame_def by auto
    ultimately show ?thesis by (blast intro: same_but_stamp_trans)
  qed
  moreover have "length h \<le> length h2" using a b unfolding frame_def by linarith
  ultimately show ?thesis unfolding frame_def by blast
qed

lemma frame_update: "frame h (h[r := stamp nm et (h ! r)])"
proof -
  have "same_but_stamp (h ! q) (h[r := stamp nm et (h ! r)] ! q)" if "q < length h" for q
    using that by (cases "q = r") (simp_all add: same_but_stamp_refl same_but_stamp_stamp)
  then show ?thesis unfolding frame_def by simp
qed

lemma frame_append: "frame h (h @ xs)"
  unfolding frame_def by (auto simp: nth_append same_but_stamp_refl)

lemma alert_step_frame:
  "alert_step EVENT_NAME DT_CTRL self cb e et spec h ret = (h', res) \<Longrightarrow> frame h h'"
proof (cases spec)
  case (Static r)
  assume "alert_step EVENT_NAME DT_CTRL self cb e et spec h ret = (h', res)"
  with Static have "h' = h \<or> (\<exists>nm. h' = h[r := stamp nm et (h ! r)])"
    by (auto simp: alert_step_Static split: option.splits if_splits)
  then show ?thesis using frame_refl frame_update by auto
next
  case (Callback f)
  assume "alert_step EVENT_NAME DT_CTRL self cb e et spec h ret = (h', res)"
  with Callback have "h' = h \<or> (\<exists>b. h' = h @ [b])"
    by (auto simp: alert_step_Callback split: option.splits if_splits sum.splits)
  then show ?thesis using frame_refl frame_append by auto
qed

lemma types_loop_frame:
  "types_loop EVENT_NAME DT_CTRL self cb e d ts h ret = (h', res) \<Longrightarrow> frame h h'"
proof (induction ts arbitrary: h ret)
  case Nil
  then show ?case by (simp add: frame_refl)
next
  case (Cons et ts)
  show ?case
  proof (cases "d et")
    case None
    with Cons show ?thesis by simp
  next
    case (Some spec)
    obtain h1 r1 where st: "alert_step EVENT_NAME DT_CTRL self cb e et spec h ret = (h1, r1)"
      by (cases "alert_step EVENT_NAME DT_CTRL self cb e et spec h ret")
    note f1 = alert_step_frame [OF st]
    show ?thesis
    proof (cases r1)
      case (Inl err)
      with Cons.prems Some st f1 show ?thesis by simp
    next
      case (Inr ret1)
      with Cons.prems Some st
      have "types_loop EVENT_NAME DT_CTRL self cb e d ts h1 ret1 = (h', res)" by simp
      from frame_trans [OF f1 Cons.IH [OF this]] show ?thesis .
    qed
  qed
qed

lemma events_loop_frame:
  "events_loop EVENTS EVENT_NAME DT_CTRL self cb ets xs h ret = (h', res) \<Longrightarrow> frame h h'"
proof (induction xs arbitrary: h ret)
  case Nil
  then show ?case by (simp add: frame_refl)
next
  case (Cons e xs)
  show ?case
  proof (cases "EVENTS e")
    case None
    with Cons.prems show ?thesis by (simp add: frame_refl)
  next
    case (Some d)
    obtain h1 r1 where st: "types_loop EVENT_NAME DT_CTRL self cb e d ets h ret = (h1, r1)"
      by (cases "types_loop EVENT_NAME DT_CTRL self cb e d ets h ret")
    note f1 = types_loop_frame [OF st]
    show ?thesis
    proof (cases r1)
      case (Inl err)
      with Cons.prems Some st f1 show ?thesis by simp
    next
      case (Inr ret1)
      with Cons.prems Some st
      have "events_loop EVENTS EVENT_NAME DT_CTRL self cb ets xs h1 ret1 = (h', res)" by simp
      from frame_trans [OF f1 Cons.IH [OF this]] show ?thesis .
    qed
  qed
qed

lemma untouched_refl: "untouched h ret h ret"
  by (simp add: untouched_def)

lemma untouched_trans:
  "untouched h ret h1 ret1 \<Longrightarrow> untouched h1 ret1 h2 ret2 \<Longrightarrow> untouched h ret h2 ret2"
proof -
  assume a: "untouched h ret h1 ret1" and b: "untouched h1 ret1 h2 ret2"
  have "h2 ! r = h ! r" if "r < length h" "r \<notin> set ret2" for r
  proof -
    from that b have "r \<notin> set ret1" unfolding untouched_def by blast
    with that a have "h1 ! r = h ! r" "r < length h1" unfolding untouched_def by auto
    with that b show ?thesis unfolding untouched_def by auto
  qed
  moreover have "length h \<le> length h2" "set ret \<subseteq> set ret2"
    using a b unfolding untouched_def by auto
  ultimately show ?thesis unfolding untouched_def by blast
qed

lemma alert_step_untouched:
  "alert_step EVENT_NAME DT_CTRL self cb e et spec h ret = (h', Inr ret') \<Longrightarrow>
   untouched h ret h' ret'"
proof (cases spec)
  case (Static r)
  assume "alert_step EVENT_NAME DT_CTRL self cb e et spec h ret = (h', Inr ret')"
  with Static have "(h' = h \<and> ret' = ret) \<or>
      (\<exists>nm. h' = h[r := stamp nm et (h ! r)] \<and> ret' = ret @ [r])"
    by (auto simp: alert_step_Static split: option.splits if_splits)
  then show ?thesis by (auto simp: untouched_def)
next
  case (Callback f)
  assume "alert_step EVENT_NAME DT_CTRL self cb e et spec h ret = (h', Inr ret')"
  with Callback have "\<exists>b. h' = h @ [b] \<and> set ret \<subseteq> set ret'"
    by (auto simp: alert_step_Callback split: option.splits if_splits sum.splits)
  then show ?thesis by (auto simp: untouched_def nth_append)
qed

lemma types_loop_untouched:
  "types_loop EVENT_NAME DT_CTRL self cb e d ts h ret = (h', Inr ret') \<Longrightarrow>
   untouched h ret h' ret'"
proof (induction ts arbitrary: h ret)
  case Nil
  then show ?case by (simp add: untouched_refl)
next
  case (Cons et ts)
  show ?case
  proof (cases "d et")
    case None
    with Cons show ?thesis by simp
  next
    case (Some spec)
    obtain h1 r1 where st: "alert_step EVENT_NAME DT_CTRL self cb e et spec h ret = (h1, r1)"
      by (cases "alert_step EVENT_NAME DT_CTRL self cb e et spec h ret")
    with Cons.prems Some obtain ret1 where r1: "r1 = Inr ret1"
      and rest: "types_loop EVENT_NAME DT_CTRL self cb e d ts h1 ret1 = (h', Inr ret')"
      by (cases r1) simp_all
    from untouched_trans [OF alert_step_untouched [OF st [unfolded r1]] Cons.IH [OF rest]]
    show ?thesis .
  qed
qed

lemma events_loop_untouched:
  "events_loop EVENTS EVENT_NAME DT_CTRL self cb ets xs h ret = (h', Inr ret') \<Longrightarrow>
   untouched h ret h' ret'"
proof (induction xs arbitrary: h ret)
  case Nil
  then show ?case by (simp add: untouched_refl)
next
  case (Cons e xs)
  from Cons.prems obtain d where d: "EVENTS e = Some d"
    by (cases "EVENTS e") simp_all
  obtain h1 r1 where st: "types_loop EVENT_NAME DT_CTRL self cb e d ets h ret = (h1, r1)"
    by (cases "types_loop EVENT_NAME DT_CTRL self cb e d ets h ret")
  with Cons.prems d obtain ret1 where r1: "r1 = Inr ret1"
    and rest: "events_loop EVENTS EVENT_NAME DT_CTRL self cb ets xs h1 ret1 = (h', Inr ret')"
    by (cases r1) simp_all
  from untouched_trans [OF types_loop_untouched [OF st [unfolded r1]] Cons.IH [OF rest]]
  show ?case .
qed

lemma alert_step_ok:
  assumes "events_prev self e \<noteq> None" "EVENT_NAME e \<noteq> None"
    "case spec of Callback f \<Rightarrow> (case f cb of Inl _ \<Rightarrow> False | Inr _ \<Rightarrow> True) | _ \<Rightarrow> True"
  shows "\<exists>h' ret'. alert_step EVENT_NAME DT_CTRL self cb e et spec h ret = (h', Inr ret')"
  using assms
  by (cases spec) (auto simp: alert_step_Static alert_step_Callback split: sum.splits)

lemma types_loop_ok:
  assumes "events_prev self e \<noteq> None" "EVENT_NAME e \<noteq> None"
  shows "\<forall>et \<in> set ts. case d et of
             Some (Callback f) \<Rightarrow> (case f cb of Inl _ \<Rightarrow> False | Inr _ \<Rightarrow> True)
           | _ \<Rightarrow> True \<Longrightarrow>
     \<exists>h' ret'. types_loop EVENT_NAME DT_CTRL self cb e d ts h ret = (h', Inr ret')"
proof (induction ts arbitrary: h ret)
  case Nil
  show ?case by simp
next
  case (Cons et ts)
  show ?case
  proof (cases "d et")
    case None
    with Cons show ?thesis by simp
  next
    case (Some spec)
    with Cons.prems
    have "case spec of Callback f \<Rightarrow> (case f cb of Inl _ \<Rightarrow> False | Inr _ \<Rightarrow> True) | _ \<Rightarrow> True"
      by simp
    from alert_step_ok [where self=self and e=e and EVENT_NAME=EVENT_NAME and spec=spec
        and cb=cb and DT_CTRL=DT_CTRL and et=et and h=h and ret=ret] assms this
    obtain h1 ret1 where "alert_step EVENT_NAME DT_CTRL self cb e et spec h ret = (h1, Inr ret1)"
      by blast
    with Some Cons.IH [of h1 ret1] Cons.prems show ?thesis by simp
  qed
qed

lemma events_loop_ok:
  "\<forall>e \<in> set xs.
        EVENTS e \<noteq> None \<and> events_prev self e \<noteq> None \<and> EVENT_NAME e \<noteq> None \<and>
        (\<forall>et \<in> set ets.
           case entry EVENTS e et of
             Some (Callback f) \<Rightarrow> (case f cb of Inl _ \<Rightarrow> False | Inr _ \<Rightarrow> True)
           | _ \<Rightarrow> True) \<Longrightarrow>
   \<exists>h' ret'. events_loop EVENTS EVENT_NAME DT_CTRL self cb ets xs h ret = (h', Inr ret')"
proof (induction xs arbitrary: h ret)
  case Nil
  show ?case by simp
next
  case (Cons e xs)
  from Cons.prems obtain d where d: "EVENTS e = Some d" by auto
  from Cons.prems have p: "events_prev self e \<noteq> None" "EVENT_NAME e \<noteq> None" by simp_all
  from Cons.prems d have "\<forall>et \<in> set ets. case d et of
             Some (Callback f) \<Rightarrow> (case f cb of Inl _ \<Rightarrow> False | Inr _ \<Rightarrow> True)
           | _ \<Rightarrow> True"
    by (simp add: entry_def)
  from types_loop_ok [where self=self and e=e and EVENT_NAME=EVENT_NAME and ts=ets
        and cb=cb and DT_CTRL=DT_CTRL and d=d and h=h and ret=ret] p this
  obtain h1 ret1 where "types_loop EVENT_NAME DT_CTRL self cb e d ets h ret = (h1, Inr ret1)"
    by blast
  with d Cons.IH [of h1 ret1] Cons.prems show ?case by simp
qed

lemma create_alerts_ok:
  "no_raise EVENTS EVENT_NAME self event_types
      (case callback_args of None \<Rightarrow> [] | Some args \<Rightarrow> args) \<Longrightarrow>
   \<exists>h' ret. create_alerts EVENTS EVENT_NAME DT_CTRL self event_types callback_args h
      = (h', Inr ret)"
  unfolding no_raise_def create_alerts_def Let_def by (rule events_loop_ok)

subsection \<open>The specification's result and the small registry\<close>

lemma expected_alert_mem:
  assumes "a \<in> set (expected_alert EVENTS EVENT_NAME DT_CTRL self cb h e et)"
  shows "\<exists>nm b. EVENT_NAME e = Some nm \<and> a = stamp nm et b"
proof (cases "EVENT_NAME e")
  case None
  with assms show ?thesis
    by (simp add: expected_alert_def split: option.splits)
next
  case (Some nm)
  with assms have "\<exists>b. a = stamp nm et b"
    by (auto simp: expected_alert_def split: option.splits if_splits)
  with Some show ?thesis by simp
qed

lemma sample_double_mul:
  "double_mul sample_DT_CTRL 1 = 5764607523034235 / 576460752303423488"
  "double_mul sample_DT_CTRL 6 = 1080863910568919 / 18014398509481984"
  "double_mul sample_DT_CTRL 35 = 6305039478318695 / 18014398509481984"
  "double_mul sample_DT_CTRL 100 = 1"
  by code_simp+

lemma sample_DT_CTRL_value: "sample_DT_CTRL = 5764607523034235 / 576460752303423488"
  by code_simp

lemma sample_create_alerts:
  "create_alerts sample_EVENTS sample_EVENT_NAME sample_DT_CTRL sample_self [WARNING, PERMANENT]
     (Some [0, 0, 0]) sample_heap =
   ([stamp ''debugAlert'' PERMANENT (sample_heap ! 0),
     stamp ''debugAlert'' WARNING (sample_heap ! 1),
     Alert_init ''No GPS'' '''' ''normal'' ''mid'' LOWER ''none'' ''none''
       0 0 (round_double (1/5)) 0 300],
    Inr [1, 0, 1, 0])"
  by (simp add: create_alerts_def alert_step_def resolve_def elapsed_cycles_def sample_EVENTS_def
     sample_EVENT_NAME_def sample_heap_def sample_self_def sample_callback_def Alert_init_def
     stamp_def sample_double_mul)

lemma sample_static_refs_ok:
  "static_refs_ok sample_EVENTS (events sample_self) [WARNING, PERMANENT] sample_heap"
  by (simp add: static_refs_ok_def entry_def sample_EVENTS_def sample_self_def sample_heap_def)

lemma sample_no_raise:
  "no_raise sample_EVENTS sample_EVENT_NAME sample_self [WARNING, PERMANENT] [0, 0, 0]"
  by (simp add: no_raise_def entry_def sample_EVENTS_def sample_self_def sample_EVENT_NAME_def
     sample_callback_def)

section \<open>The claims\<close>

text \<open>
  C1. For every sequence of calls after construction: right after \<open>clear()\<close> the
  active list equals the static list by value, which \<open>clear\<close> leaves as it was;
  the counter map keeps the registry's keys, all 0 at construction; and for every
  key \<open>k\<close> the new counter is the old one plus one if \<open>k\<close> occurs in the active
  list as it was before the call, however often, and 0 otherwise.
\<close>

theorem clear_spec:
  "events (clear (run (init EVENTS) calls)) = static_events (clear (run (init EVENTS) calls))
   \<and> static_events (clear (run (init EVENTS) calls)) = static_events (run (init EVENTS) calls)
   \<and> dom (events_prev (run (init EVENTS) calls)) = dom EVENTS
   \<and> dom (events_prev (clear (run (init EVENTS) calls))) = dom EVENTS
   \<and> (\<forall>k. events_prev (init EVENTS) k = (if k \<in> dom EVENTS then Some 0 else None))
   \<and> (\<forall>k \<in> dom EVENTS. \<exists>v. events_prev (run (init EVENTS) calls) k = Some v
         \<and> events_prev (clear (run (init EVENTS) calls)) k =
             Some (if k \<in> set (events (run (init EVENTS) calls)) then v + 1 else 0))"
proof -
  let ?s = "run (init EVENTS) calls"
  have d: "dom (events_prev ?s) = dom EVENTS"
    by (simp add: dom_events_prev_run dom_events_prev_init)
  have d': "dom (events_prev (clear ?s)) = dom EVENTS"
    using dom_events_prev_do_call [of ?s Clear] d by simp
  have i: "\<forall>k. events_prev (init EVENTS) k = (if k \<in> dom EVENTS then Some 0 else None)"
    by (auto simp: init_def split: option.splits)
  have c: "\<forall>k \<in> dom EVENTS. \<exists>v. events_prev ?s k = Some v
         \<and> events_prev (clear ?s) k = Some (if k \<in> set (events ?s) then v + 1 else 0)"
  proof
    fix k assume "k \<in> dom EVENTS"
    with d obtain v where "events_prev ?s k = Some v" by blast
    then show "\<exists>v. events_prev ?s k = Some v
         \<and> events_prev (clear ?s) k = Some (if k \<in> set (events ?s) then v + 1 else 0)"
      by (simp add: events_prev_clear)
  qed
  show ?thesis using d d' i c by (simp add: events_clear static_events_clear)
qed

theorem clear_spec_witness:
  "1 \<in> dom sample_EVENTS
   \<and> events (clear (run (init sample_EVENTS) [Add 1 False, Add 2 True, Add 1 False]))
       = static_events (run (init sample_EVENTS) [Add 1 False, Add 2 True, Add 1 False])
   \<and> (\<exists>v. events_prev (run (init sample_EVENTS) [Add 1 False, Add 2 True, Add 1 False]) 1
           = Some v
         \<and> events_prev (clear (run (init sample_EVENTS)
               [Add 1 False, Add 2 True, Add 1 False])) 1 = Some (v + 1))"
proof -
  have k: "1 \<in> dom sample_EVENTS" by (simp add: sample_EVENTS_def)
  have a: "1 \<in> set (events (run (init sample_EVENTS) [Add 1 False, Add 2 True, Add 1 False]))"
    by (simp add: run_def add_def init_def)
  from clear_spec [of sample_EVENTS "[Add 1 False, Add 2 True, Add 1 False]"] k
  obtain v where v: "events_prev (run (init sample_EVENTS)
        [Add 1 False, Add 2 True, Add 1 False]) 1 = Some v"
    "events_prev (clear (run (init sample_EVENTS) [Add 1 False, Add 2 True, Add 1 False])) 1
       = Some (if 1 \<in> set (events (run (init sample_EVENTS)
            [Add 1 False, Add 2 True, Add 1 False])) then v + 1 else 0)"
    by blast
  from v a have "\<exists>v. events_prev (run (init sample_EVENTS)
        [Add 1 False, Add 2 True, Add 1 False]) 1 = Some v
         \<and> events_prev (clear (run (init sample_EVENTS)
               [Add 1 False, Add 2 True, Add 1 False])) 1 = Some (v + 1)"
    by simp
  with clear_spec [of sample_EVENTS "[Add 1 False, Add 2 True, Add 1 False]"] k
  show ?thesis by simp
qed

text \<open>
  C4. Decoding the encoded active list into a newly constructed log gives the
  same list of identifiers in the same order (into any log, it is appended);
  \<open>to_msg\<close> gives one message per active entry, in order, whose flags are
  exactly the types the registry has for the identifier, and none for an
  identifier that is not in the registry.
\<close>

theorem wire_round_trip:
  "events (add_from_msg (init EVENTS') (to_msg EVENTS self)) = events self
   \<and> events (add_from_msg other (to_msg EVENTS self)) = events other @ events self
   \<and> to_msg EVENTS self = map (\<lambda>e. \<lparr> name = e,
        flag = (\<lambda>t. case EVENTS e of None \<Rightarrow> False | Some d \<Rightarrow> d t \<noteq> None) \<rparr>) (events self)"
proof -
  have m: "to_msg EVENTS self = map (\<lambda>e. \<lparr> name = e,
        flag = (\<lambda>t. case EVENTS e of None \<Rightarrow> False | Some d \<Rightarrow> d t \<noteq> None) \<rparr>) (events self)"
    by (simp add: to_msg_def to_msg_loop_eq)
  have n: "map name (to_msg EVENTS self) = events self"
    unfolding m by (simp add: comp_def)
  show ?thesis using m n by (simp add: events_add_from_msg init_def)
qed

text \<open>
  C5. From a state in which the counter of \<open>e\<close> is 0 (as it is at construction
  for every key of the registry), after cycles that each add \<open>e\<close> and end with
  \<open>clear()\<close>, the counter of \<open>e\<close> is the number of those cycles, and in the
  next cycle, once \<open>e\<close> is added, the elapsed cycles that \<open>create_alerts\<close>
  computes are one more: with \<open>n - 1\<close> cycles done, \<open>n - 1\<close> and \<open>n\<close>. A
  \<open>clear()\<close> of a state whose active list lacks \<open>e\<close> sets the counter to 0, so
  it is 0 after a whole cycle in which \<open>e\<close> is neither static nor added.
\<close>

theorem persistence_counting:
  "(events_prev self e = Some 0 \<and> (\<forall>adds \<in> set cycles. e \<in> fst ` set adds)
      \<and> e \<in> fst ` set adds_n \<longrightarrow>
      events_prev (run self (concat (map cycle cycles))) e = Some (int (length cycles))
      \<and> elapsed_cycles (run (run self (concat (map cycle cycles)))
            (map (\<lambda>(e, static). Add e static) adds_n)) e = Inr (int (length cycles) + 1))
   \<and> events_prev (init EVENTS) e = (if e \<in> dom EVENTS then Some 0 else None)
   \<and> (e \<in> dom (events_prev self) \<and> e \<notin> set (events self) \<longrightarrow>
        events_prev (clear self) e = Some 0)
   \<and> (e \<in> dom (events_prev self) \<and> e \<notin> set (static_events self) \<and> e \<notin> fst ` set adds \<longrightarrow>
        events_prev (run (clear self) (cycle adds)) e = Some 0)"
proof -
  have a: "events_prev (run self (concat (map cycle cycles))) e = Some (int (length cycles))
      \<and> elapsed_cycles (run (run self (concat (map cycle cycles)))
            (map (\<lambda>(e, static). Add e static) adds_n)) e = Inr (int (length cycles) + 1)"
    if "events_prev self e = Some 0" "\<forall>adds \<in> set cycles. e \<in> fst ` set adds"
    using events_prev_cycles [OF that] by (simp add: elapsed_cycles_def events_prev_run_adds)
  have b: "events_prev (init EVENTS) e = (if e \<in> dom EVENTS then Some 0 else None)"
    by (auto simp: init_def split: option.splits)
  have c: "events_prev (clear self) e = Some 0"
    if "e \<in> dom (events_prev self)" "e \<notin> set (events self)"
    using that by (auto simp: events_prev_clear)
  have d: "events_prev (run (clear self) (cycle adds)) e = Some 0"
    if "e \<in> dom (events_prev self)" "e \<notin> set (static_events self)" "e \<notin> fst ` set adds"
    using that by (auto simp: events_prev_cycle events_prev_clear events_clear)
  show ?thesis using a b c d by blast
qed

theorem persistence_counting_witness:
  "events_prev (init sample_EVENTS) 1 = Some 0
   \<and> 1 \<in> fst ` set [(1 :: nat, False)] \<and> 1 \<in> fst ` set [(2 :: nat, True), (1, False)]
   \<and> events_prev (run (init sample_EVENTS)
        (concat (map cycle [[(1, False)], [(2, True), (1, False)]]))) 1 = Some 2
   \<and> elapsed_cycles (run (run (init sample_EVENTS)
        (concat (map cycle [[(1, False)], [(2, True), (1, False)]])))
        (map (\<lambda>(e, static). Add e static) [(1, False)])) 1 = Inr 3
   \<and> 1 \<in> dom (events_prev (init sample_EVENTS))
   \<and> 1 \<notin> set (events (init sample_EVENTS))
   \<and> events_prev (clear (init sample_EVENTS)) 1 = Some 0
   \<and> 1 \<notin> set (static_events (init sample_EVENTS)) \<and> 1 \<notin> fst ` set [(2 :: nat, True)]
   \<and> events_prev (run (clear (init sample_EVENTS)) (cycle [(2, True)])) 1 = Some 0"
proof -
  have h: "events_prev (init sample_EVENTS) 1 = Some 0"
    "\<forall>adds \<in> set [[(1, False)], [(2, True), (1, False)]]. (1::nat) \<in> fst ` set adds"
    "(1::nat) \<in> fst ` set [(1, False)]"
    "1 \<in> dom (events_prev (init sample_EVENTS))"
    "1 \<notin> set (events (init sample_EVENTS))"
    "1 \<notin> set (static_events (init sample_EVENTS))" "1 \<notin> fst ` set [(2 :: nat, True)]"
    by (simp_all add: init_def sample_EVENTS_def dom_def)
  from persistence_counting [of "init sample_EVENTS" 1 "[[(1, False)], [(2, True), (1, False)]]"
      "[(1, False)]" sample_EVENTS "[(2, True)]"] h
  show ?thesis by simp
qed

text \<open>
  C6. \<open>any(event_type)\<close> is true exactly when some identifier of the active
  list has a registry entry for that type. It returns a truth value and no
  state; an identifier without a registry entry counts as false and raises
  nothing: with only such identifiers the answer is false.
\<close>

theorem any_spec:
  "(any EVENTS self t \<longleftrightarrow> (\<exists>e \<in> set (events self). \<exists>d. EVENTS e = Some d \<and> d t \<noteq> None))
   \<and> ((\<forall>e \<in> set (events self). EVENTS e = None) \<longrightarrow> \<not> any EVENTS self t)"
  by (auto simp: any_def any_loop_iff)

theorem any_spec_witness:
  "events (add (init sample_EVENTS) 7 False) = [7] \<and> sample_EVENTS 7 = None
   \<and> \<not> any sample_EVENTS (add (init sample_EVENTS) 7 False) WARNING
   \<and> any sample_EVENTS (add (add (init sample_EVENTS) 7 False) 1 False) WARNING"
proof -
  have h: "\<forall>e \<in> set (events (add (init sample_EVENTS) 7 False)). sample_EVENTS e = None"
    by (simp add: add_def init_def sample_EVENTS_def)
  have "\<exists>e \<in> set (events (add (add (init sample_EVENTS) 7 False) 1 False)).
      \<exists>d. sample_EVENTS e = Some d \<and> d WARNING \<noteq> None"
    by (simp add: add_def init_def sample_EVENTS_def)
  moreover have "events (add (init sample_EVENTS) 7 False) = [7]" "sample_EVENTS 7 = None"
    by (simp_all add: add_def init_def sample_EVENTS_def)
  ultimately show ?thesis
    using any_spec [of sample_EVENTS "add (init sample_EVENTS) 7 False" WARNING]
      any_spec [of sample_EVENTS "add (add (init sample_EVENTS) 7 False) 1 False" WARNING] h
    by blast
qed

text \<open>
  C9. \<open>a > b\<close> holds exactly when the priority of \<open>a\<close> is greater than that
  of \<open>b\<close> as an integer. The six levels are strictly increasing from LOWEST to
  HIGHEST, and the comparison is irreflexive, asymmetric and transitive, and
  decides any two alerts of different levels: a strict total order of the
  levels.
\<close>

theorem Alert_gt_spec:
  "(Alert_gt a b \<longleftrightarrow> Priority_value (alert_priority a) > Priority_value (alert_priority b))
   \<and> Priority_value LOWEST < Priority_value LOWER
   \<and> Priority_value LOWER < Priority_value LOW
   \<and> Priority_value LOW < Priority_value MID
   \<and> Priority_value MID < Priority_value HIGH
   \<and> Priority_value HIGH < Priority_value HIGHEST
   \<and> \<not> Alert_gt a a
   \<and> (Alert_gt a b \<longrightarrow> \<not> Alert_gt b a)
   \<and> (Alert_gt a b \<and> Alert_gt b c \<longrightarrow> Alert_gt a c)
   \<and> (alert_priority a \<noteq> alert_priority b \<longrightarrow> Alert_gt a b \<or> Alert_gt b a)
   \<and> (alert_priority a = alert_priority b \<longrightarrow> \<not> Alert_gt a b \<and> \<not> Alert_gt b a)"
proof -
  have inj: "Priority_value p = Priority_value q \<Longrightarrow> p = q" for p q
    by (cases p; cases q) simp_all
  have "alert_priority a \<noteq> alert_priority b \<longrightarrow> Alert_gt a b \<or> Alert_gt b a"
    unfolding Alert_gt_def using inj [of "alert_priority a" "alert_priority b"] by linarith
  then show ?thesis by (auto simp: Alert_gt_def)
qed

theorem Alert_gt_spec_witness:
  "Alert_gt (sample_heap ! 0) (sample_heap ! 1)
   \<and> Alert_gt (sample_heap ! 1) ((sample_heap ! 1)\<lparr> alert_priority := LOWEST \<rparr>)
   \<and> Alert_gt (sample_heap ! 0) ((sample_heap ! 1)\<lparr> alert_priority := LOWEST \<rparr>)
   \<and> \<not> Alert_gt (sample_heap ! 1) (sample_heap ! 0)
   \<and> alert_priority (sample_heap ! 0) \<noteq> alert_priority (sample_heap ! 1)"
proof -
  have h: "Alert_gt (sample_heap ! 0) (sample_heap ! 1)"
    "Alert_gt (sample_heap ! 1) ((sample_heap ! 1)\<lparr> alert_priority := LOWEST \<rparr>)"
    "alert_priority (sample_heap ! 0) \<noteq> alert_priority (sample_heap ! 1)"
    by (simp_all add: Alert_gt_def sample_heap_def Alert_init_def)
  from Alert_gt_spec [of "sample_heap ! 0" "sample_heap ! 1"
      "(sample_heap ! 1)\<lparr> alert_priority := LOWEST \<rparr>"] h
  show ?thesis by blast
qed

text \<open>
  C10. No call removes an entry of the static list: once \<open>add(e, static=True)\<close>
  has been called, then after any further calls \<open>e\<close> is in the static list, and
  in the active list right after a \<open>clear()\<close>.
\<close>

theorem permanent_irrevocable:
  "e \<in> set (static_events (run (add self e True) calls))
   \<and> e \<in> set (events (clear (run (add self e True) calls)))"
proof -
  have "e \<in> set (static_events (add self e True))" by (simp add: static_events_add)
  then have "e \<in> set (static_events (run (add self e True) calls))"
    using static_events_run by blast
  then show ?thesis by (simp add: events_clear)
qed

text \<open>
  C2 as amended. In a call of \<open>create_alerts\<close> that returns, for an active
  event \<open>e\<close> with counter \<open>c\<close> and name \<open>nm\<close> and a requested type \<open>et\<close>
  whose registry entry resolves to an alert \<open>a\<close>: the stamped alert is among
  the returned ones exactly when the product \<open>DT_CTRL * (c + 1)\<close>, rounded to a
  double as the program computes it, is at least \<open>a.creation_delay\<close>. So it is
  not returned while the rounded product is below the delay, and it is returned
  when the rounded product equals the delay. The name table gives no other
  active event the name of \<open>e\<close>, and the registry is as in C7.
\<close>

theorem creation_delay_gate:
  assumes "static_refs_ok EVENTS (events self) event_types h"
    and "create_alerts EVENTS EVENT_NAME DT_CTRL self event_types callback_args h = (h', Inr ret)"
    and "e \<in> set (events self)" and "et \<in> set event_types"
    and "entry EVENTS e et = Some spec"
    and "resolved spec (case callback_args of None \<Rightarrow> [] | Some args \<Rightarrow> args) h = Some a"
    and "events_prev self e = Some c"
    and "EVENT_NAME e = Some nm"
    and "\<forall>e' \<in> set (events self). EVENT_NAME e' = Some nm \<longrightarrow> e' = e"
  shows "(stamp nm et a \<in> set (map ((!) h') ret) \<longleftrightarrow>
            double_mul DT_CTRL (c + 1) \<ge> creation_delay a)
     \<and> (double_mul DT_CTRL (c + 1) < creation_delay a \<longrightarrow>
            stamp nm et a \<notin> set (map ((!) h') ret))
     \<and> (double_mul DT_CTRL (c + 1) = creation_delay a \<longrightarrow>
            stamp nm et a \<in> set (map ((!) h') ret))"
proof -
  let ?cb = "case callback_args of None \<Rightarrow> [] | Some args \<Rightarrow> args"
  let ?x = "\<lambda>e et. expected_alert EVENTS EVENT_NAME DT_CTRL self ?cb h e et"
  have vals: "set (map ((!) h') ret) = (\<Union>e \<in> set (events self). \<Union>et \<in> set event_types.
      set (?x e et))"
    using create_alerts_expected [OF assms(1,2)] by (simp add: expected_alerts_def)
  have own: "?x e et = (if double_mul DT_CTRL (c + 1) \<ge> creation_delay a
      then [stamp nm et a] else [])"
    using assms(5-8) by (simp add: expected_alert_def)
  have "double_mul DT_CTRL (c + 1) \<ge> creation_delay a"
    if "stamp nm et a \<in> set (map ((!) h') ret)"
  proof -
    from that vals obtain e' et' where e': "e' \<in> set (events self)"
      and et': "et' \<in> set event_types" and m: "stamp nm et a \<in> set (?x e' et')"
      by auto
    from expected_alert_mem [OF m] obtain nm' b where n': "EVENT_NAME e' = Some nm'"
      and s: "stamp nm et a = stamp nm' et' b"
      by blast
    from s have "event_type (stamp nm et a) = event_type (stamp nm' et' b)"
      "alert_type (stamp nm et a) = alert_type (stamp nm' et' b)" by simp_all
    then have "et' = et" "nm' = nm" by (simp_all add: stamp_def)
    with n' e' assms(9) have "e' = e" by simp
    with m \<open>et' = et\<close> own show ?thesis by (simp split: if_splits)
  qed
  moreover have "stamp nm et a \<in> set (map ((!) h') ret)"
    if "double_mul DT_CTRL (c + 1) \<ge> creation_delay a"
    using that own vals assms(3,4) by force
  ultimately show ?thesis by auto
qed

theorem creation_delay_gate_witness:
  "(\<exists>h' ret. create_alerts sample_EVENTS sample_EVENT_NAME sample_DT_CTRL sample_self
        [WARNING, PERMANENT] (Some [0, 0, 0]) sample_heap = (h', Inr ret)
      \<and> stamp ''debugAlert'' WARNING (sample_heap ! 1) \<in> set (map ((!) h') ret))
   \<and> events_prev sample_self 1 = Some 99
   \<and> double_mul sample_DT_CTRL (99 + 1) = creation_delay (sample_heap ! 1)
   \<and> entry sample_EVENTS 1 WARNING = Some (Static 1)"
proof -
  let ?h = "[stamp ''debugAlert'' PERMANENT (sample_heap ! 0),
     stamp ''debugAlert'' WARNING (sample_heap ! 1),
     Alert_init ''No GPS'' '''' ''normal'' ''mid'' LOWER ''none'' ''none''
       0 0 (round_double (1/5)) 0 300]"
  have p: "1 \<in> set (events sample_self)" "WARNING \<in> set [WARNING, PERMANENT]"
    "entry sample_EVENTS 1 WARNING = Some (Static 1)"
    "resolved (Static 1) (case Some [0, 0, 0] of None \<Rightarrow> [] | Some args \<Rightarrow> args) sample_heap
       = Some (sample_heap ! 1)"
    "events_prev sample_self 1 = Some 99"
    "sample_EVENT_NAME 1 = Some ''debugAlert''"
    "\<forall>e' \<in> set (events sample_self). sample_EVENT_NAME e' = Some ''debugAlert'' \<longrightarrow> e' = 1"
    by (simp_all add: sample_self_def entry_def sample_EVENTS_def resolved_def
        sample_EVENT_NAME_def)
  have d: "double_mul sample_DT_CTRL (99 + 1) = creation_delay (sample_heap ! 1)"
    by (simp add: sample_heap_def Alert_init_def sample_double_mul)
  from creation_delay_gate [OF sample_static_refs_ok sample_create_alerts p] d
  have "stamp ''debugAlert'' WARNING (sample_heap ! 1) \<in> set (map ((!) ?h) [1, 0, 1, 0])"
    by blast
  with sample_create_alerts p(3,5) d show ?thesis by blast
qed

text \<open>
  C2 as stated fails: with the period \<open>0.01\<close>, the counter 34 and the
  creation delay \<open>0.35000000000000003\<close>, the product of the period and the 35
  elapsed cycles is below the delay, and the alert is returned: the rounded
  product is the delay itself.
\<close>

theorem emitted_below_creation_delay:
  "events_prev sample_delay_self 1 = Some 34
   \<and> entry sample_delay_EVENTS 1 WARNING = Some (Static 0)
   \<and> sample_DT_CTRL * of_int (34 + 1) < creation_delay (sample_delay_heap ! 0)
   \<and> double_mul sample_DT_CTRL (34 + 1) = creation_delay (sample_delay_heap ! 0)
   \<and> create_alerts sample_delay_EVENTS sample_EVENT_NAME sample_DT_CTRL sample_delay_self
        [WARNING] None sample_delay_heap
       = ([stamp ''debugAlert'' WARNING (sample_delay_heap ! 0)], Inr [0])"
proof -
  have a: "events_prev sample_delay_self 1 = Some 34"
    "entry sample_delay_EVENTS 1 WARNING = Some (Static 0)"
    by (simp_all add: sample_delay_self_def sample_delay_EVENTS_def entry_def)
  have b: "sample_DT_CTRL * of_int (34 + 1) < creation_delay (sample_delay_heap ! 0)"
    by (simp add: sample_DT_CTRL_value sample_delay_heap_def Alert_init_def)
  have c: "double_mul sample_DT_CTRL (34 + 1) = creation_delay (sample_delay_heap ! 0)"
    by (simp add: sample_double_mul sample_delay_heap_def Alert_init_def)
  have d: "create_alerts sample_delay_EVENTS sample_EVENT_NAME sample_DT_CTRL sample_delay_self
        [WARNING] None sample_delay_heap
       = ([stamp ''debugAlert'' WARNING (sample_delay_heap ! 0)], Inr [0])"
    by (simp add: create_alerts_def alert_step_def resolve_def elapsed_cycles_def
        sample_delay_EVENTS_def sample_EVENT_NAME_def sample_delay_heap_def
        sample_delay_self_def Alert_init_def stamp_def sample_double_mul)
  show ?thesis using a b c d by simp
qed

text \<open>
  C3. The claim fails on the code: \<open>create_alerts\<close> reads \<open>EVENTS[e]\<close>, so an
  active identifier that is not a key of the registry, here one that a message
  brought in through \<open>add_from_msg\<close>, ends the call with a KeyError, also
  when other active events have alerts to give; \<open>any\<close> and \<open>to_msg\<close> read
  \<open>EVENTS.get(e, {})\<close> and go on.
\<close>

theorem create_alerts_unknown_event_raises:
  "sample_EVENTS 3 = None
   \<and> events (add_from_msg (add (init sample_EVENTS) 1 False)
        [\<lparr> name = 3, flag = (\<lambda>_. False) \<rparr>]) = [1, 3]
   \<and> snd (create_alerts sample_EVENTS sample_EVENT_NAME sample_DT_CTRL
        (add_from_msg (add (init sample_EVENTS) 1 False) [\<lparr> name = 3, flag = (\<lambda>_. False) \<rparr>])
        [PERMANENT] None sample_heap) = Inl KeyError
   \<and> any sample_EVENTS
        (add_from_msg (add (init sample_EVENTS) 1 False) [\<lparr> name = 3, flag = (\<lambda>_. False) \<rparr>])
        PERMANENT
   \<and> map name (to_msg sample_EVENTS
        (add_from_msg (add (init sample_EVENTS) 1 False) [\<lparr> name = 3, flag = (\<lambda>_. False) \<rparr>]))
       = [1, 3]"
  by (simp add: create_alerts_def alert_step_def resolve_def elapsed_cycles_def
      sample_EVENTS_def sample_EVENT_NAME_def sample_heap_def init_def add_def Alert_init_def
      any_def get_or_empty_def keys_def ET_all_def to_msg_def new_message_def setattr_def
      sample_double_mul)

text \<open>
  C7. When every active event is a key of the registry, the counters and the
  name table, and every factory reached returns an alert, \<open>create_alerts\<close>
  returns a list. The alerts of a returned list are, read in the store the call
  leaves, those of the specification: grouped by the active list in its order,
  an event that is twice in it giving its alerts twice, then by the requested
  types in their order, with no other ordering; each carries the tag
  \<open><name>/<type>\<close> and the event type. This is for a registry whose Alert
  entries are objects of the store, no object standing in two entries.
\<close>

theorem create_alerts_order:
  "(no_raise EVENTS EVENT_NAME self event_types
        (case callback_args of None \<Rightarrow> [] | Some args \<Rightarrow> args) \<longrightarrow>
      (\<exists>h' ret. create_alerts EVENTS EVENT_NAME DT_CTRL self event_types callback_args h
         = (h', Inr ret)))
   \<and> (static_refs_ok EVENTS (events self) event_types h \<and>
      create_alerts EVENTS EVENT_NAME DT_CTRL self event_types callback_args h = (h', Inr ret)
      \<longrightarrow>
      map ((!) h') ret =
        concat (map (\<lambda>e. concat (map (\<lambda>et.
          expected_alert EVENTS EVENT_NAME DT_CTRL self
            (case callback_args of None \<Rightarrow> [] | Some args \<Rightarrow> args) h e et) event_types))
          (events self))
      \<and> (\<forall>a \<in> set (map ((!) h') ret). \<exists>e \<in> set (events self). \<exists>et \<in> set event_types.
            \<exists>nm. EVENT_NAME e = Some nm \<and> alert_type a = nm @ ''/'' @ ET_str et \<and>
              event_type a = Some et))"
proof -
  let ?cb = "case callback_args of None \<Rightarrow> [] | Some args \<Rightarrow> args"
  have a: "\<exists>h' ret. create_alerts EVENTS EVENT_NAME DT_CTRL self event_types callback_args h
         = (h', Inr ret)"
    if "no_raise EVENTS EVENT_NAME self event_types ?cb"
    using that by (rule create_alerts_ok)
  have b: "map ((!) h') ret =
        concat (map (\<lambda>e. concat (map (\<lambda>et.
          expected_alert EVENTS EVENT_NAME DT_CTRL self ?cb h e et) event_types))
          (events self))"
    if "static_refs_ok EVENTS (events self) event_types h"
      "create_alerts EVENTS EVENT_NAME DT_CTRL self event_types callback_args h = (h', Inr ret)"
    using create_alerts_expected [OF that] by (simp add: expected_alerts_def)
  have c: "\<exists>e \<in> set (events self). \<exists>et \<in> set event_types.
            \<exists>nm. EVENT_NAME e = Some nm \<and> alert_type a = nm @ ''/'' @ ET_str et \<and>
              event_type a = Some et"
    if "static_refs_ok EVENTS (events self) event_types h"
      "create_alerts EVENTS EVENT_NAME DT_CTRL self event_types callback_args h = (h', Inr ret)"
      "a \<in> set (map ((!) h') ret)" for a
  proof -
    from that(3) b [OF that(1,2)] obtain e et where e: "e \<in> set (events self)"
      and et: "et \<in> set event_types"
      and m: "a \<in> set (expected_alert EVENTS EVENT_NAME DT_CTRL self ?cb h e et)"
      by auto
    from expected_alert_mem [OF m] obtain nm b where "EVENT_NAME e = Some nm" "a = stamp nm et b"
      by blast
    with e et show ?thesis by (auto simp: stamp_def)
  qed
  show ?thesis using a b c by blast
qed

theorem create_alerts_order_witness:
  "no_raise sample_EVENTS sample_EVENT_NAME sample_self [WARNING, PERMANENT] [0, 0, 0]
   \<and> static_refs_ok sample_EVENTS (events sample_self) [WARNING, PERMANENT] sample_heap
   \<and> events sample_self = [1, 2, 1]
   \<and> (\<exists>h'. create_alerts sample_EVENTS sample_EVENT_NAME sample_DT_CTRL sample_self
          [WARNING, PERMANENT] (Some [0, 0, 0]) sample_heap = (h', Inr [1, 0, 1, 0])
        \<and> map ((!) h') [1, 0, 1, 0] =
            [stamp ''debugAlert'' WARNING (sample_heap ! 1),
             stamp ''debugAlert'' PERMANENT (sample_heap ! 0),
             stamp ''debugAlert'' WARNING (sample_heap ! 1),
             stamp ''debugAlert'' PERMANENT (sample_heap ! 0)]
        \<and> map ((!) h') [1, 0, 1, 0] =
            concat (map (\<lambda>e. concat (map (\<lambda>et.
              expected_alert sample_EVENTS sample_EVENT_NAME sample_DT_CTRL sample_self [0, 0, 0]
                sample_heap e et) [WARNING, PERMANENT])) (events sample_self)))"
proof -
  let ?h = "[stamp ''debugAlert'' PERMANENT (sample_heap ! 0),
     stamp ''debugAlert'' WARNING (sample_heap ! 1),
     Alert_init ''No GPS'' '''' ''normal'' ''mid'' LOWER ''none'' ''none''
       0 0 (round_double (1/5)) 0 300]"
  have "map ((!) ?h) [1, 0, 1, 0] =
      concat (map (\<lambda>e. concat (map (\<lambda>et.
        expected_alert sample_EVENTS sample_EVENT_NAME sample_DT_CTRL sample_self
          (case Some [0, 0, 0] of None \<Rightarrow> [] | Some args \<Rightarrow> args)
          sample_heap e et) [WARNING, PERMANENT])) (events sample_self))"
    by (rule create_alerts_order [of sample_EVENTS sample_EVENT_NAME sample_self
      "[WARNING, PERMANENT]" "Some [0, 0, 0]" sample_DT_CTRL sample_heap ?h "[1, 0, 1, 0]",
      THEN conjunct2, THEN mp, OF conjI [OF sample_static_refs_ok sample_create_alerts],
      THEN conjunct1])
  then have m1: "map ((!) ?h) [1, 0, 1, 0] =
      concat (map (\<lambda>e. concat (map (\<lambda>et.
        expected_alert sample_EVENTS sample_EVENT_NAME sample_DT_CTRL sample_self [0, 0, 0]
          sample_heap e et) [WARNING, PERMANENT])) (events sample_self))"
    by (simp only: option.case)
  have m2: "map ((!) ?h) [1, 0, 1, 0] =
            [stamp ''debugAlert'' WARNING (sample_heap ! 1),
             stamp ''debugAlert'' PERMANENT (sample_heap ! 0),
             stamp ''debugAlert'' WARNING (sample_heap ! 1),
             stamp ''debugAlert'' PERMANENT (sample_heap ! 0)]"
    by simp
  have ev: "events sample_self = [1, 2, 1]" by (simp add: sample_self_def)
  have ex: "\<exists>h'. create_alerts sample_EVENTS sample_EVENT_NAME sample_DT_CTRL sample_self
          [WARNING, PERMANENT] (Some [0, 0, 0]) sample_heap = (h', Inr [1, 0, 1, 0])
        \<and> map ((!) h') [1, 0, 1, 0] =
            [stamp ''debugAlert'' WARNING (sample_heap ! 1),
             stamp ''debugAlert'' PERMANENT (sample_heap ! 0),
             stamp ''debugAlert'' WARNING (sample_heap ! 1),
             stamp ''debugAlert'' PERMANENT (sample_heap ! 0)]
        \<and> map ((!) h') [1, 0, 1, 0] =
            concat (map (\<lambda>e. concat (map (\<lambda>et.
              expected_alert sample_EVENTS sample_EVENT_NAME sample_DT_CTRL sample_self [0, 0, 0]
                sample_heap e et) [WARNING, PERMANENT])) (events sample_self))"
    by (rule exI [of _ ?h]) (rule conjI [OF sample_create_alerts conjI [OF m2 m1]])
  show ?thesis
    by (rule conjI [OF sample_no_raise conjI [OF sample_static_refs_ok conjI [OF ev ex]]])
qed

text \<open>
  C8 as amended. \<open>create_alerts\<close> writes the tag and the event type on the
  Alert objects it collects, and these include the objects the registry holds.
  Whatever the call does (return or raise), the store only grows and every
  object it held differs from what it was at most in \<open>alert_type\<close> and
  \<open>event_type\<close>; after a call that returns, an object that is not in the
  returned list is as it was. The registry dictionaries are arguments that no
  operation returns changed.
\<close>

theorem create_alerts_frame:
  "length h \<le> length (fst (create_alerts EVENTS EVENT_NAME DT_CTRL self event_types
        callback_args h))
   \<and> (\<forall>r < length h.
        (fst (create_alerts EVENTS EVENT_NAME DT_CTRL self event_types callback_args h) ! r)
          \<lparr> alert_type := alert_type (h ! r), event_type := event_type (h ! r) \<rparr> = h ! r)
   \<and> (create_alerts EVENTS EVENT_NAME DT_CTRL self event_types callback_args h = (h', Inr ret)
        \<longrightarrow> (\<forall>r < length h. r \<notin> set ret \<longrightarrow> h' ! r = h ! r))"
proof -
  obtain h1 res where c: "create_alerts EVENTS EVENT_NAME DT_CTRL self event_types
      callback_args h = (h1, res)"
    by (cases "create_alerts EVENTS EVENT_NAME DT_CTRL self event_types callback_args h")
  then have "frame h h1"
    unfolding create_alerts_def Let_def by (rule events_loop_frame)
  then have a: "length h \<le> length h1"
    "\<forall>r < length h. (h1 ! r)\<lparr> alert_type := alert_type (h ! r),
        event_type := event_type (h ! r) \<rparr> = h ! r"
    unfolding frame_def same_but_stamp_def by simp_all
  have b: "\<forall>r < length h. r \<notin> set ret \<longrightarrow> h' ! r = h ! r"
    if "create_alerts EVENTS EVENT_NAME DT_CTRL self event_types callback_args h = (h', Inr ret)"
  proof -
    from that have "untouched h [] h' ret"
      unfolding create_alerts_def Let_def by (rule events_loop_untouched)
    then show ?thesis unfolding untouched_def by simp
  qed
  show ?thesis using a b c by simp
qed

theorem create_alerts_frame_witness:
  "0 < length sample_heap
   \<and> (fst (create_alerts sample_EVENTS sample_EVENT_NAME sample_DT_CTRL sample_self
        [WARNING, PERMANENT] (Some [0, 0, 0]) sample_heap) ! 0)
        \<lparr> alert_type := alert_type (sample_heap ! 0),
          event_type := event_type (sample_heap ! 0) \<rparr> = sample_heap ! 0
   \<and> (\<exists>h'. create_alerts sample_EVENTS sample_EVENT_NAME sample_DT_CTRL sample_self [PERMANENT]
          (Some [0, 0, 0]) sample_heap = (h', Inr [0, 0])
        \<and> 1 < length sample_heap \<and> 1 \<notin> set [0, 0 :: nat] \<and> h' ! 1 = sample_heap ! 1)"
proof -
  have e: "create_alerts sample_EVENTS sample_EVENT_NAME sample_DT_CTRL sample_self [PERMANENT]
     (Some [0, 0, 0]) sample_heap =
   ([stamp ''debugAlert'' PERMANENT (sample_heap ! 0), sample_heap ! 1,
     Alert_init ''No GPS'' '''' ''normal'' ''mid'' LOWER ''none'' ''none''
       0 0 (round_double (1/5)) 0 300],
    Inr [0, 0])"
    by (simp add: create_alerts_def alert_step_def resolve_def elapsed_cycles_def
        sample_EVENTS_def sample_EVENT_NAME_def sample_heap_def sample_self_def
        sample_callback_def Alert_init_def stamp_def sample_double_mul)
  have l: "0 < length sample_heap" "1 < length sample_heap" "1 \<notin> set [0, 0 :: nat]"
    by (simp_all add: sample_heap_def)
  from create_alerts_frame [of sample_heap sample_EVENTS sample_EVENT_NAME sample_DT_CTRL sample_self
      "[WARNING, PERMANENT]" "Some [0, 0, 0]"] l(1)
  have a: "(fst (create_alerts sample_EVENTS sample_EVENT_NAME sample_DT_CTRL sample_self
        [WARNING, PERMANENT] (Some [0, 0, 0]) sample_heap) ! 0)
        \<lparr> alert_type := alert_type (sample_heap ! 0),
          event_type := event_type (sample_heap ! 0) \<rparr> = sample_heap ! 0"
    by blast
  from create_alerts_frame [of sample_heap sample_EVENTS sample_EVENT_NAME sample_DT_CTRL sample_self
      "[PERMANENT]" "Some [0, 0, 0]" _ "[0, 0]"] e l
  have "[stamp ''debugAlert'' PERMANENT (sample_heap ! 0), sample_heap ! 1,
     Alert_init ''No GPS'' '''' ''normal'' ''mid'' LOWER ''none'' ''none''
       0 0 (round_double (1/5)) 0 300] ! 1
       = sample_heap ! 1"
    by blast
  with e l a show ?thesis by blast
qed

text \<open>
  C8 as stated fails: the registry of the sample holds the object 0 under
  \<open>ET.PERMANENT\<close> of the event 1, with an empty tag and no event type, and after
  a call of \<open>create_alerts\<close> that same object carries the tag and the type.
\<close>

theorem registry_alert_mutated:
  "entry sample_EVENTS 1 PERMANENT = Some (Static 0)
   \<and> alert_type (sample_heap ! 0) = ''''
   \<and> event_type (sample_heap ! 0) = None
   \<and> alert_type (fst (create_alerts sample_EVENTS sample_EVENT_NAME sample_DT_CTRL sample_self
        [WARNING, PERMANENT] (Some [0, 0, 0]) sample_heap) ! 0) = ''debugAlert/permanent''
   \<and> event_type (fst (create_alerts sample_EVENTS sample_EVENT_NAME sample_DT_CTRL sample_self
        [WARNING, PERMANENT] (Some [0, 0, 0]) sample_heap) ! 0) = Some PERMANENT
   \<and> fst (create_alerts sample_EVENTS sample_EVENT_NAME sample_DT_CTRL sample_self
        [WARNING, PERMANENT] (Some [0, 0, 0]) sample_heap) ! 0 \<noteq> sample_heap ! 0"
  unfolding sample_create_alerts
  by (simp add: entry_def sample_EVENTS_def sample_heap_def Alert_init_def stamp_def)

end
